theory Spec2Isabelle
  imports Main
begin

section \<open>The grid core of AppShell: a shallow embedding of src/core/TableCore.tsx\<close>

text \<open>
  JavaScript numbers that hold row indices, column indices, indents and calendar
  components are integers here (\<open>int\<close>, or \<open>nat\<close> where the source only ever
  produces a non-negative index). Strings are \<open>string\<close>; the characters the date
  codec inspects (digits, separators, white space) are all ASCII.
\<close>

subsection \<open>Strings: the pieces of the String and RegExp built-ins the codec uses\<close>

text \<open>\<open>\d\<close> of a JavaScript regular expression: the ten ASCII digits.\<close>

definition is_digit :: "char \<Rightarrow> bool" where
  "is_digit c = (c \<in> set ''0123456789'')"

text \<open>\<open>\s\<close> and the characters \<open>String.prototype.trim\<close> strips, restricted to ASCII:
  tab, line feed, vertical tab, form feed, carriage return and space.\<close>

definition is_space :: "char \<Rightarrow> bool" where
  "is_space c = (c \<in> set [CHR 0x09, CHR 0x0A, CHR 0x0B, CHR 0x0C, CHR 0x0D, CHR '' ''])"

definition trim :: "string \<Rightarrow> string" where
  "trim s = rev (dropWhile is_space (rev (dropWhile is_space s)))"

definition digit_val :: "char \<Rightarrow> nat" where
  "digit_val c = of_char c - 48"

text \<open>\<open>Number(g)\<close> for a capture group \<open>g\<close> that consists of decimal digits.\<close>

definition Number_digits :: "string \<Rightarrow> nat" where
  "Number_digits ds = foldl (\<lambda>a c. 10 * a + digit_val c) 0 ds"

text \<open>\<open>String(n)\<close> for a non-negative integer: its decimal digits, no leading zero.\<close>

definition digit_char :: "nat \<Rightarrow> char" where
  "digit_char n = ''0123456789'' ! n"

fun String_nat :: "nat \<Rightarrow> string" where
  "String_nat n =
     (if n < 10 then [digit_char n]
      else String_nat (n div 10) @ [digit_char (n mod 10)])"

declare String_nat.simps [simp del]

definition String_int :: "int \<Rightarrow> string" where
  "String_int i = (if i < 0 then CHR ''-'' # String_nat (nat (- i)) else String_nat (nat i))"

text \<open>\<open>s.padStart(n, "0")\<close>.\<close>

definition padStart0 :: "nat \<Rightarrow> string \<Rightarrow> string" where
  "padStart0 n s = replicate (n - length s) CHR ''0'' @ s"

text \<open>\<open>s.startsWith(p)\<close>.\<close>

fun startsWith :: "string \<Rightarrow> string \<Rightarrow> bool" where
  "startsWith s [] = True"
| "startsWith [] (p # ps) = False"
| "startsWith (c # cs) (p # ps) = (c = p \<and> startsWith cs ps)"

text \<open>\<open>s.toLowerCase()\<close> on ASCII letters.\<close>

definition lower_char :: "char \<Rightarrow> char" where
  "lower_char c =
     (let n = (of_char c :: nat) in if 65 \<le> n \<and> n \<le> 90 then char_of (n + 32) else c)"

definition toLowerCase :: "string \<Rightarrow> string" where
  "toLowerCase s = map lower_char s"

text \<open>\<open>s.replace(pat, rep)\<close> with a string pattern: only the first occurrence is
  replaced. The replacement strings of this program are decimal digits, so the
  \<open>$\<close> patterns of \<open>replace\<close> never occur.\<close>

fun replace_first :: "string \<Rightarrow> string \<Rightarrow> string \<Rightarrow> string" where
  "replace_first pat rep [] = (if pat = [] then rep else [])"
| "replace_first pat rep (c # cs) =
     (if startsWith (c # cs) pat then rep @ drop (length pat) (c # cs)
      else c # replace_first pat rep cs)"

subsection \<open>Regular expressions of the date codec, as hand-written matchers\<close>

text \<open>Each matcher consumes a prefix and returns the captured group with the rest.\<close>

definition digitsN :: "nat \<Rightarrow> string \<Rightarrow> (nat \<times> string) option" where
  "digitsN n s =
     (if n \<le> length s \<and> list_all is_digit (take n s)
      then Some (Number_digits (take n s), drop n s) else None)"

text \<open>\<open>(\d{1,2})\<close> is greedy; every use is followed by a literal that is not a
  digit, so taking two digits whenever two are there loses no match.\<close>

fun digits12 :: "string \<Rightarrow> (nat \<times> string) option" where
  "digits12 (a # b # rest) =
     (if is_digit a \<and> is_digit b then Some (Number_digits [a, b], rest)
      else if is_digit a then Some (Number_digits [a], b # rest)
      else None)"
| "digits12 [a] = (if is_digit a then Some (Number_digits [a], []) else None)"
| "digits12 [] = None"

fun lit :: "char \<Rightarrow> string \<Rightarrow> string option" where
  "lit c (x # xs) = (if x = c then Some xs else None)"
| "lit c [] = None"

text \<open>The optional tail \<open>(?:[T\s](\d{2}):(\d{2})(?::(\d{2}))?)?$\<close> of the ISO form:
  hour, minute and second groups, each absent (\<open>None\<close>) or a number.\<close>

definition iso_time :: "string \<Rightarrow> (nat option \<times> nat option \<times> nat option) option" where
  "iso_time s =
     (case s of
        [] \<Rightarrow> Some (None, None, None)
      | sep # s1 \<Rightarrow>
          if sep = CHR ''T'' \<or> is_space sep then
            (case digitsN 2 s1 of None \<Rightarrow> None
             | Some (hh, s2) \<Rightarrow>
            (case lit CHR '':'' s2 of None \<Rightarrow> None
             | Some s3 \<Rightarrow>
            (case digitsN 2 s3 of None \<Rightarrow> None
             | Some (mi, s4) \<Rightarrow>
            (case s4 of
               [] \<Rightarrow> Some (Some hh, Some mi, None)
             | _ \<Rightarrow>
            (case lit CHR '':'' s4 of None \<Rightarrow> None
             | Some s5 \<Rightarrow>
            (case digitsN 2 s5 of None \<Rightarrow> None
             | Some (ss, s6) \<Rightarrow>
                 if s6 = [] then Some (Some hh, Some mi, Some ss) else None))))))
          else None)"

text \<open>\<open>/^(\d{4})-(\d{2})-(\d{2})(?:[T\s](\d{2}):(\d{2})(?::(\d{2}))?)?$/\<close>\<close>

definition match_iso ::
  "string \<Rightarrow> (nat \<times> nat \<times> nat \<times> nat option \<times> nat option \<times> nat option) option" where
  "match_iso t =
     (case digitsN 4 t of None \<Rightarrow> None
      | Some (g1, t1) \<Rightarrow>
     (case lit CHR ''-'' t1 of None \<Rightarrow> None
      | Some t2 \<Rightarrow>
     (case digitsN 2 t2 of None \<Rightarrow> None
      | Some (g2, t3) \<Rightarrow>
     (case lit CHR ''-'' t3 of None \<Rightarrow> None
      | Some t4 \<Rightarrow>
     (case digitsN 2 t4 of None \<Rightarrow> None
      | Some (g3, t5) \<Rightarrow>
     (case iso_time t5 of None \<Rightarrow> None
      | Some (g4, g5, g6) \<Rightarrow> Some (g1, g2, g3, g4, g5, g6)))))))"

text \<open>The optional tail \<open>(?:\s+(\d{1,2}):(\d{2}))?$\<close> of the dot and slash forms.\<close>

definition hm_time :: "string \<Rightarrow> (nat option \<times> nat option) option" where
  "hm_time s =
     (case s of
        [] \<Rightarrow> Some (None, None)
      | sep # s0 \<Rightarrow>
          if is_space sep then
            (case digits12 (dropWhile is_space s0) of None \<Rightarrow> None
             | Some (hh, s2) \<Rightarrow>
            (case lit CHR '':'' s2 of None \<Rightarrow> None
             | Some s3 \<Rightarrow>
            (case digitsN 2 s3 of None \<Rightarrow> None
             | Some (mi, s4) \<Rightarrow>
                 if s4 = [] then Some (Some hh, Some mi) else None)))
          else None)"

text \<open>\<open>/^(\d{1,2})SEP(\d{1,2})SEP(\d{4})(?:\s+(\d{1,2}):(\d{2}))?$/\<close> with \<open>SEP\<close> a
  dot (the dot form) or a slash (the slash form).\<close>

definition match_sep ::
  "char \<Rightarrow> string \<Rightarrow> (nat \<times> nat \<times> nat \<times> nat option \<times> nat option) option" where
  "match_sep sep t =
     (case digits12 t of None \<Rightarrow> None
      | Some (g1, t1) \<Rightarrow>
     (case lit sep t1 of None \<Rightarrow> None
      | Some t2 \<Rightarrow>
     (case digits12 t2 of None \<Rightarrow> None
      | Some (g2, t3) \<Rightarrow>
     (case lit sep t3 of None \<Rightarrow> None
      | Some t4 \<Rightarrow>
     (case digitsN 4 t4 of None \<Rightarrow> None
      | Some (g3, t5) \<Rightarrow>
     (case hm_time t5 of None \<Rightarrow> None
      | Some (g4, g5) \<Rightarrow> Some (g1, g2, g3, g4, g5)))))))"

subsection \<open>The Date built-in (ECMA-262, Date objects), in local time\<close>

text \<open>
  A \<open>Date\<close> holds a time value in milliseconds. The program only builds dates from
  local calendar components and only reads local components back, so the model keeps
  the local time value and leaves the time zone out: the offset that the constructor
  subtracts is the offset that the getters add, except inside a daylight-saving gap.
\<close>

definition DaysInYear :: "int \<Rightarrow> int" where
  "DaysInYear y =
     (if y mod 4 \<noteq> 0 then 365
      else if y mod 100 \<noteq> 0 then 366
      else if y mod 400 \<noteq> 0 then 365
      else 366)"

definition DayFromYear :: "int \<Rightarrow> int" where
  "DayFromYear y =
     365 * (y - 1970) + (y - 1969) div 4 - (y - 1901) div 100 + (y - 1601) div 400"

text \<open>The year search below terminates because the first day of a year grows with
  the year; that needs the step of a floor division by one, where the quotient moves
  exactly at a multiple.\<close>

lemma div_step:
  assumes "0 < (n::int)"
  shows "(x + 1) div n = x div n + (if (x + 1) mod n = 0 then 1 else 0)"
proof -
  define q r where "q = (x + 1) div n" and "r = (x + 1) mod n"
  have x1: "x + 1 = n * q + r" by (simp add: q_def r_def)
  have r: "0 \<le> r" "r < n" using assms by (simp_all add: r_def)
  show ?thesis
  proof (cases "r = 0")
    case True
    have "x = n * (q - 1) + (n - 1)" using x1 True by (simp add: algebra_simps)
    then have "x div n = q - 1" using assms int_div_pos_eq[of x n "q - 1" "n - 1"] by simp
    then show ?thesis using True by (simp add: q_def r_def)
  next
    case False
    have "x = n * q + (r - 1)" using x1 by simp
    then have "x div n = q" using assms r False int_div_pos_eq[of x n q "r - 1"] by simp
    then show ?thesis using False by (simp add: q_def r_def)
  qed
qed

lemma mod_shift: "((y::int) - k * n) mod n = y mod n"
  by (metis mod_mult_self1 mult.commute uminus_add_conv_diff add.commute mult_minus_right)

lemma div4_step: "(y - 1968) div 4 = (y - 1969) div 4 + (if y mod 4 = 0 then 1 else (0::int))"
proof -
  have a: "y - 1969 + 1 = y - 1968" by simp
  have b: "y - 1968 = y - 492 * 4" by simp
  have "(y - 1968) mod 4 = y mod 4" unfolding b by (rule mod_shift)
  then show ?thesis using div_step[of 4 "y - 1969"] unfolding a by simp
qed

lemma div100_step: "(y - 1900) div 100 = (y - 1901) div 100 + (if y mod 100 = 0 then 1 else (0::int))"
proof -
  have a: "y - 1901 + 1 = y - 1900" by simp
  have b: "y - 1900 = y - 19 * 100" by simp
  have "(y - 1900) mod 100 = y mod 100" unfolding b by (rule mod_shift)
  then show ?thesis using div_step[of 100 "y - 1901"] unfolding a by simp
qed

lemma div400_step: "(y - 1600) div 400 = (y - 1601) div 400 + (if y mod 400 = 0 then 1 else (0::int))"
proof -
  have a: "y - 1601 + 1 = y - 1600" by simp
  have b: "y - 1600 = y - 4 * 400" by simp
  have "(y - 1600) mod 400 = y mod 400" unfolding b by (rule mod_shift)
  then show ?thesis using div_step[of 400 "y - 1601"] unfolding a by simp
qed

lemma mod100_mod4: "(y::int) mod 100 = 0 \<Longrightarrow> y mod 4 = 0"
proof -
  assume "y mod 100 = 0"
  then have "100 dvd y" by (simp add: mod_eq_0_iff_dvd)
  moreover have "(4::int) dvd 100" by simp
  ultimately have "4 dvd y" by (rule dvd_trans[rotated])
  then show ?thesis by (simp add: mod_eq_0_iff_dvd)
qed

lemma mod400_mod100: "(y::int) mod 400 = 0 \<Longrightarrow> y mod 100 = 0"
proof -
  assume "y mod 400 = 0"
  then have "400 dvd y" by (simp add: mod_eq_0_iff_dvd)
  moreover have "(100::int) dvd 400" by simp
  ultimately have "100 dvd y" by (rule dvd_trans[rotated])
  then show ?thesis by (simp add: mod_eq_0_iff_dvd)
qed

lemma DayFromYear_Suc: "DayFromYear (y + 1) = DayFromYear y + DaysInYear y"
proof -
  have e: "y + 1 - 1970 = y - 1969" "y + 1 - 1969 = y - 1968" "y + 1 - 1901 = y - 1900"
    "y + 1 - 1601 = y - 1600" by simp_all
  have s: "365 * (y - 1969) = 365 * (y - 1970) + 365" by simp
  show ?thesis
    unfolding DayFromYear_def e div4_step div100_step div400_step s DaysInYear_def
    using mod100_mod4[of y] mod400_mod100[of y]
    by (cases "y mod 4 = 0"; cases "y mod 100 = 0"; cases "y mod 400 = 0") simp_all
qed

lemma DaysInYear_pos: "365 \<le> DaysInYear y" "DaysInYear y \<le> 366"
  by (simp_all add: DaysInYear_def)

lemma DayFromYear_less: "DayFromYear y < DayFromYear (y + 1)"
  using DaysInYear_pos(1)[of y] by (simp add: DayFromYear_Suc)

text \<open>\<open>YearFromTime\<close>: the largest year whose first day is not after the given day.
  The search starts at a year that is not after the answer and walks up.\<close>

function year_search :: "int \<Rightarrow> int \<Rightarrow> int" where
  "year_search day y = (if DayFromYear (y + 1) \<le> day then year_search day (y + 1) else y)"
  by pat_completeness auto
termination
proof (relation "measure (\<lambda>(day, y). nat (day + 1 - DayFromYear (y + 1)))")
  show "wf (measure (\<lambda>(day, y). nat (day + 1 - DayFromYear (y + 1))))"
    by simp
next
  fix day y :: int
  assume "DayFromYear (y + 1) \<le> day"
  then show "((day, y + 1), (day, y))
      \<in> measure (\<lambda>(day, y). nat (day + 1 - DayFromYear (y + 1)))"
    using DayFromYear_less[of "y + 1"] by simp
qed

declare year_search.simps [simp del]

definition msPerDay :: int where "msPerDay = 86400000"

definition msPerHour :: int where "msPerHour = 3600000"

definition msPerMinute :: int where "msPerMinute = 60000"

definition msPerSecond :: int where "msPerSecond = 1000"

definition InLeapYear_of :: "int \<Rightarrow> int" where
  "InLeapYear_of y = (if DaysInYear y = 366 then 1 else 0)"

definition Day :: "int \<Rightarrow> int" where
  "Day t = t div msPerDay"

definition YearFromDay :: "int \<Rightarrow> int" where
  "YearFromDay d =
     year_search d (if 0 \<le> d then 1970 + d div 366 else 1970 + d div 365)"

definition YearFromTime :: "int \<Rightarrow> int" where
  "YearFromTime t = YearFromDay (Day t)"

definition DayWithinYear :: "int \<Rightarrow> int" where
  "DayWithinYear t = Day t - DayFromYear (YearFromTime t)"

definition InLeapYear :: "int \<Rightarrow> int" where
  "InLeapYear t = InLeapYear_of (YearFromTime t)"

text \<open>\<open>MonthFromTime\<close> and \<open>DateFromTime\<close>, by the day within the year and the leap flag.\<close>

definition month_of_day :: "int \<Rightarrow> int \<Rightarrow> int" where
  "month_of_day d l =
     (if d < 31 then 0
      else if d < 59 + l then 1
      else if d < 90 + l then 2
      else if d < 120 + l then 3
      else if d < 151 + l then 4
      else if d < 181 + l then 5
      else if d < 212 + l then 6
      else if d < 243 + l then 7
      else if d < 273 + l then 8
      else if d < 304 + l then 9
      else if d < 334 + l then 10
      else 11)"

definition MonthFromTime :: "int \<Rightarrow> int" where
  "MonthFromTime t = month_of_day (DayWithinYear t) (InLeapYear t)"

definition date_of_day :: "int \<Rightarrow> int \<Rightarrow> int \<Rightarrow> int" where
  "date_of_day m d l =
     (if m = 0 then d + 1
      else if m = 1 then d - 30
      else if m = 2 then d - 58 - l
      else if m = 3 then d - 89 - l
      else if m = 4 then d - 119 - l
      else if m = 5 then d - 150 - l
      else if m = 6 then d - 180 - l
      else if m = 7 then d - 211 - l
      else if m = 8 then d - 242 - l
      else if m = 9 then d - 272 - l
      else if m = 10 then d - 303 - l
      else d - 333 - l)"

definition DateFromTime :: "int \<Rightarrow> int" where
  "DateFromTime t = date_of_day (MonthFromTime t) (DayWithinYear t) (InLeapYear t)"

definition HourFromTime :: "int \<Rightarrow> int" where
  "HourFromTime t = (t div msPerHour) mod 24"

definition MinFromTime :: "int \<Rightarrow> int" where
  "MinFromTime t = (t div msPerMinute) mod 60"

text \<open>Days from the start of a year to the start of its month \<open>mn\<close> (0 to 11).\<close>

definition days_before_month :: "int \<Rightarrow> int \<Rightarrow> int" where
  "days_before_month l mn =
     (if mn = 0 then 0
      else if mn = 1 then 31
      else if mn = 2 then 59 + l
      else if mn = 3 then 90 + l
      else if mn = 4 then 120 + l
      else if mn = 5 then 151 + l
      else if mn = 6 then 181 + l
      else if mn = 7 then 212 + l
      else if mn = 8 then 243 + l
      else if mn = 9 then 273 + l
      else if mn = 10 then 304 + l
      else 334 + l)"

text \<open>\<open>MakeDay(year, month, date)\<close>: months outside 0 to 11 carry into the year, and
  the day of the month is added as an offset, whatever its size.\<close>

definition MakeDay :: "int \<Rightarrow> int \<Rightarrow> int \<Rightarrow> int" where
  "MakeDay year month date =
     (let ym = year + month div 12; mn = month mod 12 in
      DayFromYear ym + days_before_month (InLeapYear_of ym) mn + date - 1)"

definition MakeTime :: "int \<Rightarrow> int \<Rightarrow> int \<Rightarrow> int \<Rightarrow> int" where
  "MakeTime hour minute sec ms =
     hour * msPerHour + minute * msPerMinute + sec * msPerSecond + ms"

definition MakeDate :: "int \<Rightarrow> int \<Rightarrow> int" where
  "MakeDate day time = day * msPerDay + time"

text \<open>\<open>TimeClip\<close>: a time value beyond 8.64e15 ms is \<open>NaN\<close> (here \<open>None\<close>).\<close>

definition TimeClip :: "int \<Rightarrow> int option" where
  "TimeClip t = (if \<bar>t\<bar> > 8640000000000000 then None else Some t)"

text \<open>A valid \<open>Date\<close> object; an invalid one (time value \<open>NaN\<close>) is \<open>None\<close> of
  \<open>Date option\<close>.\<close>

datatype Date = Date (timeValue: int)

text \<open>\<open>new Date(year, month, date, hours, minutes, seconds)\<close> on integers: a year
  from 0 to 99 means 1900 + year.\<close>

definition new_Date :: "int \<Rightarrow> int \<Rightarrow> int \<Rightarrow> int \<Rightarrow> int \<Rightarrow> int \<Rightarrow> Date option" where
  "new_Date y m dt h mi s =
     (let yr = (if 0 \<le> y \<and> y \<le> 99 then 1900 + y else y) in
      map_option Date (TimeClip (MakeDate (MakeDay yr m dt) (MakeTime h mi s 0))))"

definition getFullYear :: "Date \<Rightarrow> int" where
  "getFullYear d = YearFromTime (timeValue d)"

definition getMonth :: "Date \<Rightarrow> int" where
  "getMonth d = MonthFromTime (timeValue d)"

definition getDate :: "Date \<Rightarrow> int" where
  "getDate d = DateFromTime (timeValue d)"

definition getHours :: "Date \<Rightarrow> int" where
  "getHours d = HourFromTime (timeValue d)"

definition getMinutes :: "Date \<Rightarrow> int" where
  "getMinutes d = MinFromTime (timeValue d)"

text \<open>The number of days of month \<open>m\<close> (1 to 12) of a year with leap flag \<open>l\<close>.\<close>

definition days_in_month :: "int \<Rightarrow> int \<Rightarrow> int" where
  "days_in_month l m =
     (if m = 2 then 28 + l
      else if m = 4 \<or> m = 6 \<or> m = 9 \<or> m = 11 then 30 else 31)"

definition valid_ymd :: "int \<Rightarrow> int \<Rightarrow> int \<Rightarrow> bool" where
  "valid_ymd y m d =
     (1 \<le> m \<and> m \<le> 12 \<and> 1 \<le> d \<and> d \<le> days_in_month (InLeapYear_of y) m)"

subsection \<open>parseDateFlexible and the formatters\<close>

text \<open>A capture group that did not take part in the match counts as 0.\<close>

definition group0 :: "nat option \<Rightarrow> int" where
  "group0 g = (case g of None \<Rightarrow> 0 | Some n \<Rightarrow> int n)"

text \<open>The day and month of a slash form \<open>a/b/yyyy\<close>, as (day, month). The hint is
  \<open>None\<close> when the argument is left out; an empty hint is falsy and counts the same.\<close>

definition slash_day_month :: "int \<Rightarrow> int \<Rightarrow> string option \<Rightarrow> int \<times> int" where
  "slash_day_month a b patternHint =
     (if a > 12 \<and> b \<le> 12 then (a, b)
      else if b > 12 \<and> a \<le> 12 then (b, a)
      else
        (let hint = (case patternHint of None \<Rightarrow> [] | Some h \<Rightarrow> h);
             prefersDMY = startsWith (toLowerCase hint) ''dd''
         in if prefersDMY \<or> hint = [] then (a, b) else (b, a)))"

definition parseDateFlexible :: "string \<Rightarrow> string option \<Rightarrow> Date option" where
  "parseDateFlexible input patternHint =
     (if input = [] then None
      else let t = trim input in
        if t = [] then None
        else case match_iso t of
          Some (yyyy, mm, dd, hh, mi, ss) \<Rightarrow>
            new_Date (int yyyy) (int mm - 1) (int dd) (group0 hh) (group0 mi) (group0 ss)
        | None \<Rightarrow>
        (case match_sep CHR ''.'' t of
          Some (dd, mm, yyyy, hh, mi) \<Rightarrow>
            new_Date (int yyyy) (int mm - 1) (int dd) (group0 hh) (group0 mi) 0
        | None \<Rightarrow>
        (case match_sep CHR ''/'' t of
          Some (a, b, yyyy, hh, mi) \<Rightarrow>
            (let (dd, mm) = slash_day_month (int a) (int b) patternHint in
             new_Date (int yyyy) (mm - 1) dd (group0 hh) (group0 mi) 0)
        | None \<Rightarrow> None)))"

definition formatDateByPattern :: "Date option \<Rightarrow> string \<Rightarrow> string" where
  "formatDateByPattern date pattern =
     (case date of
        None \<Rightarrow> []
      | Some d \<Rightarrow>
          (let yyyy = getFullYear d;
               mm = padStart0 2 (String_int (getMonth d + 1));
               dd = padStart0 2 (String_int (getDate d))
           in replace_first ''dd'' dd
                (replace_first ''mm'' mm
                  (replace_first ''yyyy'' (String_int yyyy) pattern))))"

definition formatDatetimeByPattern :: "Date option \<Rightarrow> string \<Rightarrow> string" where
  "formatDatetimeByPattern date pattern =
     (case date of
        None \<Rightarrow> []
      | Some d \<Rightarrow>
          (let base = formatDateByPattern date pattern;
               hh = padStart0 2 (String_int (getHours d));
               mi = padStart0 2 (String_int (getMinutes d))
           in base @ '' '' @ hh @ '':'' @ mi))"

subsection \<open>Data model (src/core/TableTypes.ts) and the component state\<close>

datatype ColType = TText | TNumber | TDate | TDatetime

text \<open>\<open>ColumnDef\<close>: the optional \<open>type\<close> and \<open>width\<close> are \<open>None\<close> when left out.\<close>

record ColumnDef =
  key :: string
  title :: string
  col_type :: "ColType option"
  width :: "int option"

text \<open>\<open>CellValue = string | number | null | undefined\<close>. The numbers of cells are
  whatever \<open>Number(text)\<close> yields; their type is the parameter \<open>'n\<close>.\<close>

datatype 'n CellValue = Str string | Num 'n | Null | Undefined

text \<open>
  A \<open>cells\<close> record is a JavaScript object, shared by every row object that points to
  it. The store keeps these objects by address; a row holds the address of its cells.
  Row objects themselves are never written in place by the program (a changed row is
  always a fresh \<open>{...row, ...}\<close>), so a row is a value here.
\<close>

type_synonym 'n Cells = "string \<rightharpoonup> 'n CellValue"

record RowData =
  row_id :: string
  indent :: int
  cells :: nat

record Selection =
  r1 :: int
  r2 :: int
  c1 :: int
  c2 :: int

datatype EditMode = Replace | CaretEnd | SelectAll

record EditingState =
  edit_r :: nat
  edit_c :: nat
  mode :: EditMode
  seed :: "string option"

record 'n TableCoreCellCommit =
  commit_row :: nat
  commit_col :: nat
  columnKey :: string
  prev :: "'n CellValue"
  "next" :: "'n CellValue"

text \<open>
  The state of one mounted \<open>TableCore\<close> between two events: the React state and the
  refs that mirror it agree then, so each pair is one field. The calls made to the
  host's callbacks are logged in the order they happen; \<open>store\<close> is the heap of cells
  objects, which the host shares.
\<close>

record 'n TableState =
  cols :: "ColumnDef list"
  data :: "RowData list"
  store :: "'n Cells list"
  sel :: Selection
  editing :: "EditingState option"
  editValue :: string
  collapsed :: "string set"
  editSessionId :: nat
  lastCommittedSession :: "nat option"
  dateFormat :: string
  onChange_calls :: "RowData list list"
  onCellCommit_calls :: "'n TableCoreCellCommit list"
  onEditingChange_calls :: "(nat \<times> nat) option list"

definition clamp :: "int \<Rightarrow> int \<Rightarrow> int \<Rightarrow> int" where
  "clamp n a b = max a (min b n)"

definition isNumericColumn :: "ColumnDef \<Rightarrow> bool" where
  "isNumericColumn col = (col_type col = Some TNumber)"

definition isDateColumn :: "ColumnDef \<Rightarrow> bool" where
  "isDateColumn col = (col_type col = Some TDate \<or> col_type col = Some TDatetime)"

definition NOSEL :: Selection where
  "NOSEL = \<lparr>r1 = -1, r2 = -1, c1 = -1, c2 = -1\<rparr>"

definition hasSel :: "Selection \<Rightarrow> bool" where
  "hasSel s = (r1 s \<ge> 0 \<and> c1 s \<ge> 0 \<and> r2 s \<ge> 0 \<and> c2 s \<ge> 0)"

text \<open>\<open>arr.map((x, i) => f(i, x))\<close>.\<close>

definition mapi :: "(nat \<Rightarrow> 'a \<Rightarrow> 'b) \<Rightarrow> 'a list \<Rightarrow> 'b list" where
  "mapi f xs = map (\<lambda>(i, x). f i x) (enumerate 0 xs)"

definition setAndPropagate :: "RowData list \<Rightarrow> 'n TableState \<Rightarrow> 'n TableState" where
  "setAndPropagate nxt st = st\<lparr>data := nxt, onChange_calls := onChange_calls st @ [nxt]\<rparr>"

definition setEditingBoth :: "EditingState option \<Rightarrow> 'n TableState \<Rightarrow> 'n TableState" where
  "setEditingBoth nxt st =
     st\<lparr>editing := nxt,
        onEditingChange_calls :=
          onEditingChange_calls st @ [map_option (\<lambda>e. (edit_r e, edit_c e)) nxt]\<rparr>"

subsection \<open>Indent adjustment\<close>

text \<open>\<open>indentRow(rowIdx, delta)\<close>: \<open>arr[rowIdx]\<close> is \<open>undefined\<close> outside the array, and
  the function returns at once then.\<close>

definition indentRow :: "int \<Rightarrow> int \<Rightarrow> 'n TableState \<Rightarrow> 'n TableState" where
  "indentRow rowIdx delta st =
     (let arr = data st in
      if rowIdx < 0 \<or> int (length arr) \<le> rowIdx then st
      else
        let cur = arr ! nat rowIdx;
            prevIndent = (if rowIdx > 0 then indent (arr ! nat (rowIdx - 1)) else 0);
            maxIndent = prevIndent + 1;
            desired = indent cur + delta;
            nextIndent = clamp desired 0 maxIndent
        in if nextIndent = indent cur then st
           else setAndPropagate
                  (mapi (\<lambda>i r. if int i = rowIdx then r\<lparr>indent := nextIndent\<rparr> else r) arr) st)"

text \<open>The key handler's branch for Alt+ArrowLeft and Alt+ArrowRight (without Shift):
  nothing while a cell is edited or without a selection.\<close>

definition onKey_AltArrow :: "bool \<Rightarrow> 'n TableState \<Rightarrow> 'n TableState" where
  "onKey_AltArrow right st =
     (if editing st \<noteq> None then st
      else if \<not> hasSel (sel st) then st
      else indentRow (r1 (sel st)) (if right then 1 else - 1) st)"

text \<open>The indent invariant at row \<open>i\<close>: not negative, and at most one deeper than the
  row before (the row before row 0 counts as indent 0).\<close>

definition indent_ok :: "RowData list \<Rightarrow> nat \<Rightarrow> bool" where
  "indent_ok rows i =
     (0 \<le> indent (rows ! i)
      \<and> indent (rows ! i) \<le> (if i = 0 then 0 else indent (rows ! (i - 1))) + 1)"

subsection \<open>Hierarchy: computeHasChildren and the visible-row projection\<close>

text \<open>
  Both loops keep a stack in an array whose last element is the top. Here the stack is
  a list whose head is the top, so \<open>stack.pop()\<close> while the top's indent is at least
  the row's indent is \<open>dropWhile\<close>, and \<open>stack.push(e)\<close> is \<open>e # stack\<close>.
\<close>

text \<open>One round of the loop of \<open>computeHasChildren\<close>, on \<open>(childrenMap, stack)\<close>; a
  stack entry is \<open>(idx, indent)\<close>. The \<open>Map\<close> is a list of key and value pairs in
  insertion order, each key once.\<close>

definition hasChildren_step ::
  "RowData list \<Rightarrow> nat \<Rightarrow> (nat \<times> nat list) list \<times> (nat \<times> int) list
    \<Rightarrow> (nat \<times> nat list) list \<times> (nat \<times> int) list" where
  "hasChildren_step rows i s =
     (let childrenMap = fst s;
          ind = indent (rows ! i);
          stack = dropWhile (\<lambda>e. snd e \<ge> ind) (snd s);
          parentIdx = (case stack of [] \<Rightarrow> - 1 | e # _ \<Rightarrow> int (fst e));
          childrenMap' =
            (if parentIdx \<ge> 0 then
               (let p = nat parentIdx;
                    cm = (if map_of childrenMap p = None then childrenMap @ [(p, [])]
                          else childrenMap)
                in map (\<lambda>(k, l). if k = p then (k, l @ [i]) else (k, l)) cm)
             else childrenMap)
      in (childrenMap', (i, ind) # stack))"

definition computeHasChildren :: "RowData list \<Rightarrow> nat set" where
  "computeHasChildren rows =
     set (map fst (fst (fold (hasChildren_step rows) [0..<length rows] ([], []))))"

text \<open>One round of the loop of \<open>visibleRowIndices\<close>, on \<open>(result, st)\<close>; a stack entry
  is \<open>(id, indent, collapsed)\<close>.\<close>

definition visible_step ::
  "RowData list \<Rightarrow> nat set \<Rightarrow> string set \<Rightarrow> nat
    \<Rightarrow> nat list \<times> (string \<times> int \<times> bool) list
    \<Rightarrow> nat list \<times> (string \<times> int \<times> bool) list" where
  "visible_step rows hasChildren clps i s =
     (let row = rows ! i;
          st = dropWhile (\<lambda>a. fst (snd a) \<ge> indent row) (snd s);
          hidden = list_ex (\<lambda>a. snd (snd a)) st;
          result = (if \<not> hidden then fst s @ [i] else fst s);
          isParent = (i \<in> hasChildren)
      in (result,
          (row_id row, indent row, if isParent then row_id row \<in> clps else False) # st))"

definition visibleRowIndices :: "RowData list \<Rightarrow> nat set \<Rightarrow> string set \<Rightarrow> nat list" where
  "visibleRowIndices rows hasChildren clps =
     fst (fold (visible_step rows hasChildren clps) [0..<length rows] ([], []))"

text \<open>The projection as the component computes it: \<open>hasChildren\<close> is derived from
  the same rows.\<close>

definition visible_rows :: "RowData list \<Rightarrow> string set \<Rightarrow> nat list" where
  "visible_rows rows clps = visibleRowIndices rows (computeHasChildren rows) clps"

definition toggleCollapsed :: "string \<Rightarrow> string set \<Rightarrow> string set" where
  "toggleCollapsed rowId clps = (if rowId \<in> clps then clps - {rowId} else insert rowId clps)"

text \<open>Row \<open>k\<close> is an ancestor of row \<open>i\<close>: it comes before \<open>i\<close>, and every row after
  \<open>k\<close> up to and including \<open>i\<close> is indented deeper than \<open>k\<close>. Read the other way,
  \<open>i\<close> lies in the contiguous descendant run of \<open>k\<close>.\<close>

definition ancestor :: "RowData list \<Rightarrow> nat \<Rightarrow> nat \<Rightarrow> bool" where
  "ancestor rows k i =
     (k < i \<and> list_all (\<lambda>m. indent (rows ! k) < indent (rows ! m)) [Suc k..<Suc i])"

text \<open>The row indices on the stack once the first \<open>n\<close> rows are done (top first):
  the rows that every later row so far is indented deeper than.\<close>

definition open_at :: "RowData list \<Rightarrow> nat \<Rightarrow> nat list" where
  "open_at rows n =
     filter (\<lambda>k. list_all (\<lambda>m. indent (rows ! k) < indent (rows ! m)) [Suc k..<n])
       (rev [0..<n])"

text \<open>The ancestors of row \<open>i\<close>, nearest first: the stack after the pops for row \<open>i\<close>.\<close>

definition ancestors :: "RowData list \<Rightarrow> nat \<Rightarrow> nat list" where
  "ancestors rows i = filter (\<lambda>k. ancestor rows k i) (rev [0..<i])"

subsection \<open>Navigation: nextPosAfter\<close>

datatype Dir = Down | Up | Right | Left

text \<open>\<open>xs.indexOf(x)\<close>: the first position of \<open>x\<close>, or -1.\<close>

fun indexOf :: "'a list \<Rightarrow> 'a \<Rightarrow> int" where
  "indexOf [] x = - 1"
| "indexOf (y # ys) x =
     (if y = x then 0 else let j = indexOf ys x in if j = - 1 then - 1 else j + 1)"

text \<open>\<open>visible[vi]\<close> is read only at positions inside the array here.\<close>

definition nextPosAfter :: "nat \<Rightarrow> int \<Rightarrow> Dir \<Rightarrow> 'n TableState \<Rightarrow> nat \<times> int" where
  "nextPosAfter r c dir st =
     (let visible = visible_rows (data st) (collapsed st);
          idxInVisible = indexOf visible r;
          colMax = int (length (cols st)) - 1
      in if idxInVisible = - 1 then
           (let nearest =
                  (case find (\<lambda>v. v \<ge> r) visible of
                     Some v \<Rightarrow> Some v
                   | None \<Rightarrow> if visible = [] then None else Some (last visible))
            in (case nearest of Some v \<Rightarrow> v | None \<Rightarrow> r, c))
         else
           (let vi0 = idxInVisible;
                vi1 = (if dir = Down then min (int (length visible) - 1) (vi0 + 1) else vi0);
                vi2 = (if dir = Up then max 0 (vi1 - 1) else vi1)
            in if dir = Right then
                 (let cc = c + 1 in
                  if cc > colMax
                  then (visible ! nat (min (int (length visible) - 1) (vi2 + 1)), 0)
                  else (r, cc))
               else if dir = Left then
                 (let cc = c - 1 in
                  if cc < 0
                  then (visible ! nat (max 0 (vi2 - 1)), colMax)
                  else (r, cc))
               else (visible ! nat vi2, c)))"

subsection \<open>Committing a cell, the editing session and paste\<close>

text \<open>
  What the handlers take from outside \<open>TableCore.tsx\<close>: \<open>Number(text)\<close> and \<open>String(number)\<close>
  of the runtime on cell numbers, and \<open>parseClipboard\<close> of \<open>utils/clipboard\<close>, which
  turns the clipboard text into rows of cell texts.
\<close>

record 'n Env =
  Number_of :: "string \<Rightarrow> 'n"
  String_of :: "'n \<Rightarrow> string"
  parseClipboard :: "string \<Rightarrow> string list list"

text \<open>\<open>rows[r]?.cells?.[key]\<close>: \<open>undefined\<close> outside the array and for a missing key.\<close>

definition cell_at :: "'n Cells list \<Rightarrow> RowData list \<Rightarrow> nat \<Rightarrow> string \<Rightarrow> 'n CellValue" where
  "cell_at h rows r k =
     (if r < length rows then
        (case (h ! cells (rows ! r)) k of None \<Rightarrow> Undefined | Some v \<Rightarrow> v)
      else Undefined)"

text \<open>The value stored for a raw text in a column. \<open>commitCellValue\<close> and \<open>onPaste\<close>
  each spell out this same case distinction.\<close>

definition coerce_value :: "'n Env \<Rightarrow> string \<Rightarrow> ColumnDef \<Rightarrow> string \<Rightarrow> 'n CellValue" where
  "coerce_value env fmt col raw =
     (if isNumericColumn col then (if raw = [] then Str [] else Num (Number_of env raw))
      else if isDateColumn col then
        (let d = parseDateFlexible raw (Some fmt) in
         if col_type col = Some TDatetime
         then (if d \<noteq> None then Str (formatDatetimeByPattern d fmt) else Str raw)
         else (if d \<noteq> None then Str (formatDateByPattern d fmt) else Str raw))
      else Str raw)"

text \<open>\<open>commitCellValue(r, c, raw, {endEdit})\<close>. Reading \<open>col.key\<close> of a column that does
  not exist throws; that is \<open>None\<close>. The changed row gets a fresh cells object, a copy of
  the old one with the one key set, at the next free address of the store.\<close>

definition commitCellValue ::
  "'n Env \<Rightarrow> nat \<Rightarrow> nat \<Rightarrow> string \<Rightarrow> bool \<Rightarrow> 'n TableState \<Rightarrow> 'n TableState option" where
  "commitCellValue env r c raw endEdit st =
     (if length (cols st) \<le> c then None
      else
        let col = cols st ! c;
            prv = cell_at (store st) (data st) r (key col);
            parsed = coerce_value env (dateFormat st) col raw;
            fresh = length (store st);
            store' = (if r < length (data st)
                      then store st @ [(store st ! cells (data st ! r))(key col \<mapsto> parsed)]
                      else store st);
            nxt = mapi (\<lambda>i row. if i = r then row\<lparr>cells := fresh\<rparr> else row) (data st);
            st1 = setAndPropagate nxt (st\<lparr>store := store'\<rparr>);
            evt = \<lparr>commit_row = r, commit_col = c, columnKey = key col,
                   prev = prv, next = parsed\<rparr>;
            st2 = st1\<lparr>onCellCommit_calls := onCellCommit_calls st1 @ [evt]\<rparr>
        in Some (if endEdit then setEditingBoth None st2 else st2))"

definition commitEdit ::
  "'n Env \<Rightarrow> nat \<Rightarrow> nat \<Rightarrow> string \<Rightarrow> 'n TableState \<Rightarrow> 'n TableState option" where
  "commitEdit env r c val st =
     (let sessionId = editSessionId st in
      if lastCommittedSession st = Some sessionId then Some st
      else commitCellValue env r c val True (st\<lparr>lastCommittedSession := Some sessionId\<rparr>))"

text \<open>\<open>String(v ?? "")\<close> on a cell value.\<close>

definition String_cell :: "'n Env \<Rightarrow> 'n CellValue \<Rightarrow> string" where
  "String_cell env v =
     (case v of Str s \<Rightarrow> s | Num n \<Rightarrow> String_of env n | Null \<Rightarrow> [] | Undefined \<Rightarrow> [])"

definition startEditing :: "'n Env \<Rightarrow> EditingState \<Rightarrow> 'n TableState \<Rightarrow> 'n TableState option" where
  "startEditing env nxt st =
     (let st1 = st\<lparr>editSessionId := editSessionId st + 1, lastCommittedSession := None\<rparr> in
      if length (cols st1) \<le> edit_c nxt then None
      else
        let col = cols st1 ! edit_c nxt;
            storedVal = cell_at (store st1) (data st1) (edit_r nxt) (key col);
            initial = (if mode nxt = Replace
                       then (case seed nxt of None \<Rightarrow> [] | Some s \<Rightarrow> s)
                       else String_cell env storedVal)
        in Some (setEditingBoth (Some nxt) (st1\<lparr>editValue := initial\<rparr>)))"

text \<open>A run of \<open>commitEdit\<close> calls, each with its own row, column and text, as blur and
  key handlers issue them.\<close>

fun commitEdits ::
  "'n Env \<Rightarrow> (nat \<times> nat \<times> string) list \<Rightarrow> 'n TableState \<Rightarrow> 'n TableState option" where
  "commitEdits env [] st = Some st"
| "commitEdits env ((r, c, val) # rest) st =
     (case commitEdit env r c val st of None \<Rightarrow> None | Some st' \<Rightarrow> commitEdits env rest st')"

text \<open>The inner loop of \<open>onPaste\<close>: the cells of one clipboard row, written into the
  cells object at address \<open>a\<close>; it stops at the first column index past the last column.
  \<open>isAggregatedCell\<close> is the constant \<open>false\<close> in the source, so its \<open>continue\<close> never runs.\<close>

fun paste_cells ::
  "'n Env \<Rightarrow> string \<Rightarrow> ColumnDef list \<Rightarrow> int \<Rightarrow> nat \<Rightarrow> nat \<Rightarrow> string list
    \<Rightarrow> 'n Cells list \<Rightarrow> 'n Cells list" where
  "paste_cells env fmt cs cstart a j [] h = h"
| "paste_cells env fmt cs cstart a j (raw # rest) h =
     (let cc = cstart + int j in
      if cc \<ge> int (length cs) then h
      else
        let col = cs ! nat cc in
        paste_cells env fmt cs cstart a (Suc j) rest
          (h[a := (h ! a)(key col \<mapsto> coerce_value env fmt col raw)]))"

text \<open>The outer loop: clipboard row \<open>i\<close> goes to the visible row at position
  \<open>start + i\<close>; it stops when the visible rows run out.\<close>

fun paste_lines ::
  "'n Env \<Rightarrow> string \<Rightarrow> ColumnDef list \<Rightarrow> int \<Rightarrow> RowData list \<Rightarrow> nat list \<Rightarrow> nat \<Rightarrow> nat
    \<Rightarrow> string list list \<Rightarrow> 'n Cells list \<Rightarrow> 'n Cells list" where
  "paste_lines env fmt cs cstart nxt visible start i [] h = h"
| "paste_lines env fmt cs cstart nxt visible start i (line # rest) h =
     (if length visible \<le> start + i then h
      else
        let visRow = visible ! (start + i) in
        paste_lines env fmt cs cstart nxt visible start (Suc i) rest
          (paste_cells env fmt cs cstart (cells (nxt ! visRow)) 0 line h))"

text \<open>\<open>onPaste\<close> with the clipboard's plain text. \<open>data.slice()\<close> is a new array of the
  same row objects, so the writes \<open>next[visRow].cells[col.key] = ...\<close> go to the cells
  objects that the rows of \<open>data\<close> hold.\<close>

definition onPaste :: "'n Env \<Rightarrow> string \<Rightarrow> 'n TableState \<Rightarrow> 'n TableState" where
  "onPaste env txt st =
     (let curSel = sel st in
      if \<not> hasSel curSel then st
      else if txt = [] then st
      else
        let m = parseClipboard env txt;
            nxt = data st;
            visible = visible_rows (data st) (collapsed st);
            startIdxInVisible = indexOf (map int visible) (r1 curSel)
        in if startIdxInVisible = - 1 then st
           else setAndPropagate nxt
                  (st\<lparr>store := paste_lines env (dateFormat st) (cols st) (c1 curSel) nxt visible
                                 (nat startIdxInVisible) 0 m (store st)\<rparr>))"

subsection \<open>Column reorder by drag and drop, and the drag rectangle\<close>

text \<open>\<open>onDrop\<close> on the header at position \<open>idx\<close>, for a drag that started on the header
  at position \<open>frm\<close>. A \<open>frm\<close> that is not a column of the table would put \<open>undefined\<close>
  into the column list, and a selection edge that is not a column makes \<open>mapIndex\<close>
  throw: both are \<open>None\<close>. The selection updater runs before the effect that refreshes
  \<open>colsRef\<close>, so \<open>colsRef.current\<close> is still the old column list inside \<open>mapIndex\<close>.\<close>

definition splice_move :: "nat \<Rightarrow> nat \<Rightarrow> 'a list \<Rightarrow> 'a list" where
  "splice_move frm idx xs =
     (let moved = xs ! frm;
          rest = take frm xs @ drop (Suc frm) xs
      in take idx rest @ [moved] @ drop idx rest)"

definition onDrop :: "nat \<Rightarrow> nat \<Rightarrow> 'n TableState \<Rightarrow> 'n TableState option" where
  "onDrop frm idx st =
     (if frm = idx then Some st
      else if length (cols st) \<le> frm then None
      else
        let nxt = splice_move frm idx (cols st);
            st1 = st\<lparr>cols := nxt\<rparr>;
            s = sel st
        in if \<not> hasSel s then Some st1
           else if int (length (cols st)) \<le> c1 s \<or> int (length (cols st)) \<le> c2 s then None
           else
             let mapIndex = (\<lambda>old. indexOf (map key (splice_move frm idx (cols st)))
                                      (key (cols st ! nat old)))
             in Some (st1\<lparr>sel := \<lparr>r1 = r1 s, r2 = r2 s,
                                    c1 = mapIndex (c1 s), c2 = mapIndex (c2 s)\<rparr>\<rparr>))"

text \<open>The selection that \<open>onMouseMove\<close> sets while dragging from the pressed cell
  \<open>(r0, c0)\<close> over the cell \<open>(r, c)\<close>.\<close>

definition drag_selection :: "int \<Rightarrow> int \<Rightarrow> int \<Rightarrow> int \<Rightarrow> Selection" where
  "drag_selection r c r0 c0 = \<lparr>r1 = min r r0, r2 = max r r0, c1 = min c c0, c2 = max c c0\<rparr>"

text \<open>The selection invariant: rows and columns in order and inside the table.\<close>

definition sel_ok :: "'n TableState \<Rightarrow> bool" where
  "sel_ok st =
     (let s = sel st in
      r1 s \<le> r2 s \<and> c1 s \<le> c2 s
      \<and> 0 \<le> r1 s \<and> r2 s < int (length (data st))
      \<and> 0 \<le> c1 s \<and> c2 s < int (length (cols st)))"

subsection \<open>Reading a date text, and the canonical rendering of a date\<close>

text \<open>The calendar components that \<open>parseDateFlexible\<close> reads from a text and hands to
  the \<open>Date\<close> constructor, as (year, month, day, hour, minute, second): the same three
  matchers in the same order, without the construction of the \<open>Date\<close>.\<close>

definition date_fields ::
  "string \<Rightarrow> string option \<Rightarrow> (int \<times> int \<times> int \<times> int \<times> int \<times> int) option" where
  "date_fields input patternHint =
     (let t = trim input in
      case match_iso t of
        Some (yyyy, mm, dd, hh, mi, ss) \<Rightarrow>
          Some (int yyyy, int mm, int dd, group0 hh, group0 mi, group0 ss)
      | None \<Rightarrow>
      (case match_sep CHR ''.'' t of
        Some (dd, mm, yyyy, hh, mi) \<Rightarrow> Some (int yyyy, int mm, int dd, group0 hh, group0 mi, 0)
      | None \<Rightarrow>
      (case match_sep CHR ''/'' t of
        Some (a, b, yyyy, hh, mi) \<Rightarrow>
          (let (dd, mm) = slash_day_month (int a) (int b) patternHint in
           Some (int yyyy, mm, dd, group0 hh, group0 mi, 0))
      | None \<Rightarrow> None)))"

text \<open>The rule of the specification for the slash form \<open>a/b/yyyy\<close>, as (day, month):
  when exactly one of the two components exceeds 12, it is the day; otherwise a hint
  that begins with the day token \<open>dd\<close> (in any letter case) means day first and any other
  hint means month first; without a hint (none, or an empty one) it is day first.\<close>

definition spec_day_month :: "nat \<Rightarrow> nat \<Rightarrow> string option \<Rightarrow> nat \<times> nat" where
  "spec_day_month a b hint =
     (if (a > 12) \<noteq> (b > 12) then (max a b, min a b)
      else case hint of
        None \<Rightarrow> (a, b)
      | Some h \<Rightarrow>
          if h = [] then (a, b)
          else if startsWith (toLowerCase h) ''dd'' then (a, b) else (b, a))"

text \<open>Two decimal digits for a day or month number, and the canonical text of the
  calendar date \<open>(y, m, d)\<close> under each of the four date patterns.\<close>

definition pad2 :: "int \<Rightarrow> string" where
  "pad2 n = padStart0 2 (String_int n)"

definition canonical_date :: "string \<Rightarrow> int \<Rightarrow> int \<Rightarrow> int \<Rightarrow> string" where
  "canonical_date p y m d =
     (if p = ''dd.mm.yyyy'' then pad2 d @ ''.'' @ pad2 m @ ''.'' @ String_int y
      else if p = ''dd/mm/yyyy'' then pad2 d @ ''/'' @ pad2 m @ ''/'' @ String_int y
      else if p = ''mm/dd/yyyy'' then pad2 m @ ''/'' @ pad2 d @ ''/'' @ String_int y
      else String_int y @ ''-'' @ pad2 m @ ''-'' @ pad2 d)"

subsection \<open>Date texts and date patterns, as the specification describes them\<close>

text \<open>
  The specification names three forms of date text: ISO (\<open>yyyy-mm-dd\<close>, optionally
  followed by \<open>T\<close> or white space and \<open>hh:mm[:ss]\<close>), dot-separated (\<open>d.m.yyyy\<close>,
  optionally with a trailing \<open>h:mm\<close>) and slash-separated (\<open>a/b/yyyy\<close>, optionally with
  a trailing \<open>h:mm\<close>). The definitions below build such texts from the numbers they
  denote; they do not use the matchers of the parser. The number \<open>n\<close> written with at
  least \<open>w\<close> digits:
\<close>

definition decimal :: "nat \<Rightarrow> nat \<Rightarrow> string" where
  "decimal w n = padStart0 w (String_nat n)"















text \<open>A date pattern, piece by piece: the tokens \<open>yyyy\<close>, \<open>mm\<close> and \<open>dd\<close> and the
  literal texts between and around them. The pattern string is the pieces put together.\<close>

datatype PatternPiece = TokYear | TokMonth | TokDay | TokLit string

fun piece_text :: "PatternPiece \<Rightarrow> string" where
  "piece_text TokYear = ''yyyy''"
| "piece_text TokMonth = ''mm''"
| "piece_text TokDay = ''dd''"
| "piece_text (TokLit s) = s"

definition pattern_text :: "PatternPiece list \<Rightarrow> string" where
  "pattern_text ps = concat (map piece_text ps)"



text \<open>The canonical text of the date \<open>(y, m, d)\<close> under a pattern: every token replaced
  by its number, month and day with two digits, the literal texts as they are.\<close>

fun piece_value :: "nat \<Rightarrow> nat \<Rightarrow> nat \<Rightarrow> PatternPiece \<Rightarrow> string" where
  "piece_value y m d TokYear = String_nat y"
| "piece_value y m d TokMonth = decimal 2 m"
| "piece_value y m d TokDay = decimal 2 d"
| "piece_value y m d (TokLit s) = s"

definition canonical_text :: "PatternPiece list \<Rightarrow> nat \<Rightarrow> nat \<Rightarrow> nat \<Rightarrow> string" where
  "canonical_text ps y m d = concat (map (piece_value y m d) ps)"





subsection \<open>A small table: three nested rows, the middle one selected\<close>

definition demo_rows :: "RowData list" where
  "demo_rows =
     [\<lparr>row_id = ''a'', indent = 0, cells = 0\<rparr>,
      \<lparr>row_id = ''b'', indent = 1, cells = 1\<rparr>,
      \<lparr>row_id = ''c'', indent = 2, cells = 2\<rparr>]"

definition demo_state :: "int TableState" where
  "demo_state =
     \<lparr>cols = [], data = demo_rows, store = [Map.empty, Map.empty, Map.empty],
      sel = \<lparr>r1 = 1, r2 = 1, c1 = 0, c2 = 0\<rparr>, editing = None, editValue = [],
      collapsed = {}, editSessionId = 0, lastCommittedSession = None,
      dateFormat = ''dd.mm.yyyy'', onChange_calls = [], onCellCommit_calls = [],
      onEditingChange_calls = []\<rparr>"

subsection \<open>A table of six rows with two levels of nesting\<close>

definition rows6 :: "RowData list" where
  "rows6 =
     [\<lparr>row_id = ''a'', indent = 0, cells = 0\<rparr>,
      \<lparr>row_id = ''b'', indent = 1, cells = 1\<rparr>,
      \<lparr>row_id = ''c'', indent = 2, cells = 2\<rparr>,
      \<lparr>row_id = ''d'', indent = 1, cells = 3\<rparr>,
      \<lparr>row_id = ''e'', indent = 0, cells = 4\<rparr>,
      \<lparr>row_id = ''f'', indent = 3, cells = 5\<rparr>]"

text \<open>The same table with row \<open>b\<close> collapsed, which hides row \<open>c\<close>.\<close>

definition hidden_c_state :: "int TableState" where
  "hidden_c_state =
     \<lparr>cols = [], data = rows6,
      store = [Map.empty, Map.empty, Map.empty, Map.empty, Map.empty, Map.empty],
      sel = \<lparr>r1 = 2, r2 = 2, c1 = 7, c2 = 7\<rparr>, editing = None, editValue = [],
      collapsed = {''b''}, editSessionId = 0, lastCommittedSession = None,
      dateFormat = ''dd.mm.yyyy'', onChange_calls = [], onCellCommit_calls = [],
      onEditingChange_calls = []\<rparr>"

subsection \<open>A grid of three columns over these rows\<close>

definition cols3 :: "ColumnDef list" where
  "cols3 =
     [\<lparr>key = ''title'', title = ''Title'', col_type = Some TText, width = None\<rparr>,
      \<lparr>key = ''value'', title = ''Value'', col_type = Some TNumber, width = None\<rparr>,
      \<lparr>key = ''start'', title = ''Start'', col_type = Some TDate, width = Some 120\<rparr>]"

text \<open>Cell numbers are integers here, read from decimal digits; the clipboard text is
  taken as one row of one cell.\<close>

definition env0 :: "int Env" where
  "env0 = \<lparr>Number_of = (\<lambda>s. int (Number_digits s)), String_of = String_int,
            parseClipboard = (\<lambda>t. [[t]])\<rparr>"

text \<open>The three nested rows under the three columns; the second row holds the number
  15 in column \<open>value\<close>, and the first two columns of the first row are selected.\<close>

definition grid_state :: "int TableState" where
  "grid_state = demo_state\<lparr>cols := cols3,
       store := [Map.empty, [''value'' \<mapsto> Num 15], Map.empty],
       sel := \<lparr>r1 = 0, r2 = 0, c1 = 0, c2 = 1\<rparr>\<rparr>"

text \<open>A clipboard of three rows, the first wider than the table from column 1 on.\<close>

definition clip_env :: "int Env" where
  "clip_env = \<lparr>Number_of = (\<lambda>s. int (Number_digits s)), String_of = String_int,
       parseClipboard = (\<lambda>t. [[''5'', ''12.3.2026'', ''zz''], [''6'', ''y''], [''7'']])\<rparr>"

text \<open>The six rows with row \<open>b\<close> collapsed, under the three columns, with the cell in
  row 1, column 1 selected.\<close>

definition paste_state :: "int TableState" where
  "paste_state = hidden_c_state\<lparr>cols := cols3, sel := \<lparr>r1 = 1, r2 = 1, c1 = 1, c2 = 1\<rparr>\<rparr>"

section \<open>Facts about the model\<close>

subsection \<open>Facts about calendar arithmetic of the Date built-in\<close>

lemma year_search_bounds:
  "DayFromYear y \<le> day \<Longrightarrow>
   DayFromYear (year_search day y) \<le> day \<and> day < DayFromYear (year_search day y + 1)"
proof (induction day y rule: year_search.induct)
  case (1 day y)
  show ?case
  proof (cases "DayFromYear (y + 1) \<le> day")
    case True
    then show ?thesis using "1.IH" by (simp add: year_search.simps[of day y])
  next
    case False
    then show ?thesis using "1.prems" by (simp add: year_search.simps[of day y])
  qed
qed

lemma DayFromYear_mono_aux: "0 \<le> k \<Longrightarrow> DayFromYear y + 365 * k \<le> DayFromYear (y + k)"
proof (induction k rule: int_ge_induct)
  case base
  then show ?case by simp
next
  case (step i)
  have "DayFromYear (y + (i + 1)) = DayFromYear (y + i) + DaysInYear (y + i)"
    using DayFromYear_Suc[of "y + i"] by (simp add: add.assoc)
  then show ?case using step DaysInYear_pos(1)[of "y + i"] by simp
qed

lemma DayFromYear_mono: "y \<le> z \<Longrightarrow> DayFromYear y \<le> DayFromYear z"
  using DayFromYear_mono_aux[of "z - y" y] by simp

lemma DayFromYear_strict: "y < z \<Longrightarrow> DayFromYear y < DayFromYear z"
  using DayFromYear_mono[of "y + 1" z] DayFromYear_less[of y] by simp

lemma year_unique:
  assumes "DayFromYear y \<le> d" "d < DayFromYear (y + 1)"
      and "DayFromYear z \<le> d" "d < DayFromYear (z + 1)"
  shows "y = z"
proof (rule ccontr)
  assume "y \<noteq> z"
  then consider "y + 1 \<le> z" | "z + 1 \<le> y" by linarith
  then show False
  proof cases
    case 1
    then show False using DayFromYear_mono[of "y + 1" z] assms by simp
  next
    case 2
    then show False using DayFromYear_mono[of "z + 1" y] assms by simp
  qed
qed

lemma DayFromYear_1970: "DayFromYear 1970 = 0"
  by (simp add: DayFromYear_def)

lemma DayFromYear_upper_aux: "0 \<le> k \<Longrightarrow> DayFromYear (y + k) \<le> DayFromYear y + 366 * k"
proof (induction k rule: int_ge_induct)
  case base
  then show ?case by simp
next
  case (step i)
  have "DayFromYear (y + (i + 1)) = DayFromYear (y + i) + DaysInYear (y + i)"
    using DayFromYear_Suc[of "y + i"] by (simp add: add.assoc)
  then show ?case using step DaysInYear_pos(2)[of "y + i"] by simp
qed

lemma year_start_le: "DayFromYear (if 0 \<le> d then 1970 + d div 366 else 1970 + d div 365) \<le> d"
proof (cases "0 \<le> d")
  case True
  then have k: "0 \<le> d div 366" by simp
  have "366 * (d div 366) \<le> d"
    using div_mult_mod_eq[of d 366] pos_mod_sign[of 366 d] by linarith
  then show ?thesis
    using True DayFromYear_upper_aux[OF k, of 1970] by (simp add: DayFromYear_1970)
next
  case False
  then have k: "0 \<le> - (d div 365)" using div_neg_pos_less0[of d 365] by simp
  have "365 * (d div 365) \<le> d"
    using div_mult_mod_eq[of d 365] pos_mod_sign[of 365 d] by linarith
  then show ?thesis
    using False DayFromYear_mono_aux[OF k, of "1970 + d div 365"]
    by (simp add: DayFromYear_1970)
qed

lemma YearFromDay_bounds:
  "DayFromYear (YearFromDay d) \<le> d \<and> d < DayFromYear (YearFromDay d + 1)"
  unfolding YearFromDay_def by (rule year_search_bounds[OF year_start_le])

lemma YearFromDay_eq:
  "DayFromYear y \<le> d \<Longrightarrow> d < DayFromYear (y + 1) \<Longrightarrow> YearFromDay d = y"
  using YearFromDay_bounds[of d] year_unique[of "YearFromDay d" d y] by simp

lemma Day_MakeDate: "0 \<le> time \<Longrightarrow> time < msPerDay \<Longrightarrow> Day (MakeDate day time) = day"
  unfolding Day_def MakeDate_def msPerDay_def
  by (rule int_div_pos_eq[of _ _ _ time]) simp_all

lemma InLeapYear_of_cases: "InLeapYear_of y = 0 \<or> InLeapYear_of y = 1"
  by (simp add: InLeapYear_of_def)

lemma DaysInYear_leap: "DaysInYear y = 365 + InLeapYear_of y"
  by (simp add: InLeapYear_of_def DaysInYear_def)

lemma month_cases:
  assumes "1 \<le> (m::int)" "m \<le> 12"
  shows "m = 1 \<or> m = 2 \<or> m = 3 \<or> m = 4 \<or> m = 5 \<or> m = 6 \<or> m = 7 \<or> m = 8
    \<or> m = 9 \<or> m = 10 \<or> m = 11 \<or> m = 12"
  using assms by arith

lemma day_within_year_bounds:
  assumes "l = 0 \<or> l = 1" "1 \<le> m" "m \<le> 12" "1 \<le> d" "d \<le> days_in_month l m"
  shows "0 \<le> days_before_month l (m - 1) + (d - 1)"
    and "days_before_month l (m - 1) + (d - 1) < 365 + l"
    and "month_of_day (days_before_month l (m - 1) + (d - 1)) l = m - 1"
    and "date_of_day (m - 1) (days_before_month l (m - 1) + (d - 1)) l = d"
proof -
  have "0 \<le> days_before_month l (m - 1) + (d - 1)
      \<and> days_before_month l (m - 1) + (d - 1) < 365 + l
      \<and> month_of_day (days_before_month l (m - 1) + (d - 1)) l = m - 1
      \<and> date_of_day (m - 1) (days_before_month l (m - 1) + (d - 1)) l = d"
    using month_cases[OF assms(2,3)] assms(1,4,5)
    by (elim disjE)
      (simp_all add: days_in_month_def days_before_month_def month_of_day_def date_of_day_def)
  then show "0 \<le> days_before_month l (m - 1) + (d - 1)"
    and "days_before_month l (m - 1) + (d - 1) < 365 + l"
    and "month_of_day (days_before_month l (m - 1) + (d - 1)) l = m - 1"
    and "date_of_day (m - 1) (days_before_month l (m - 1) + (d - 1)) l = d"
    by simp_all
qed

text \<open>The time value of a valid calendar date and time of day, and what the day-level
  functions of the built-in make of it.\<close>

lemma valid_time_value:
  assumes v: "valid_ymd y m d"
    and h: "0 \<le> h" "h < 24" and mi: "0 \<le> mi" "mi < 60" and s: "0 \<le> s" "s < 60"
  defines "t \<equiv> MakeDate (MakeDay y (m - 1) d) (MakeTime h mi s 0)"
  shows "Day t = DayFromYear y + (days_before_month (InLeapYear_of y) (m - 1) + (d - 1))"
    and "YearFromTime t = y"
proof -
  let ?l = "InLeapYear_of y"
  let ?w = "days_before_month ?l (m - 1) + (d - 1)"
  from v have m: "1 \<le> m" "m \<le> 12" and d: "1 \<le> d" "d \<le> days_in_month ?l m"
    by (simp_all add: valid_ymd_def)
  have dm: "(m - 1) div 12 = 0" "(m - 1) mod 12 = m - 1" using m by simp_all
  have md: "MakeDay y (m - 1) d = DayFromYear y + ?w"
    by (simp add: MakeDay_def dm)
  have tm: "0 \<le> MakeTime h mi s 0" "MakeTime h mi s 0 < msPerDay"
    using h mi s
    by (simp_all add: MakeTime_def msPerDay_def msPerHour_def msPerMinute_def msPerSecond_def)
  show day: "Day t = DayFromYear y + ?w"
    unfolding t_def using Day_MakeDate[OF tm] md by simp
  have w: "0 \<le> ?w" "?w < 365 + ?l"
    using day_within_year_bounds(1,2)[OF InLeapYear_of_cases m d] by simp_all
  have "YearFromDay (DayFromYear y + ?w) = y"
    using w by (intro YearFromDay_eq) (simp_all add: DayFromYear_Suc DaysInYear_leap)
  then show "YearFromTime t = y" by (simp add: YearFromTime_def day)
qed

lemma valid_month_date:
  assumes v: "valid_ymd y m d"
    and h: "0 \<le> h" "h < 24" and mi: "0 \<le> mi" "mi < 60" and s: "0 \<le> s" "s < 60"
  defines "t \<equiv> MakeDate (MakeDay y (m - 1) d) (MakeTime h mi s 0)"
  shows "MonthFromTime t = m - 1" and "DateFromTime t = d"
proof -
  let ?l = "InLeapYear_of y"
  from v have m: "1 \<le> m" "m \<le> 12" and d: "1 \<le> d" "d \<le> days_in_month ?l m"
    by (simp_all add: valid_ymd_def)
  have dw: "DayWithinYear t = days_before_month ?l (m - 1) + (d - 1)"
    unfolding DayWithinYear_def t_def
    using valid_time_value[OF v h mi s] by simp
  have il: "InLeapYear t = ?l"
    unfolding InLeapYear_def t_def using valid_time_value(2)[OF v h mi s] by simp
  show mt: "MonthFromTime t = m - 1"
    unfolding MonthFromTime_def dw il
    by (rule day_within_year_bounds(3)[OF InLeapYear_of_cases m d])
  show "DateFromTime t = d"
    unfolding DateFromTime_def mt dw il
    by (rule day_within_year_bounds(4)[OF InLeapYear_of_cases m d])
qed

lemma valid_hour_min:
  fixes day :: int
  assumes h: "0 \<le> h" "h < 24" and mi: "0 \<le> mi" "mi < 60" and s: "0 \<le> s" "s < 60"
  defines "t \<equiv> MakeDate day (MakeTime h mi s 0)"
  shows "HourFromTime t = h" and "MinFromTime t = mi"
proof -
  have "t = msPerHour * (day * 24 + h) + (mi * 60000 + s * 1000)"
    by (simp add: t_def MakeDate_def MakeTime_def msPerDay_def msPerHour_def
        msPerMinute_def msPerSecond_def)
  then have "t div msPerHour = day * 24 + h"
    using mi s by (intro int_div_pos_eq[of _ _ _ "mi * 60000 + s * 1000"])
      (simp_all add: msPerHour_def)
  then show "HourFromTime t = h" using h by (simp add: HourFromTime_def)
  have "t = msPerMinute * ((day * 24 + h) * 60 + mi) + s * 1000"
    by (simp add: t_def MakeDate_def MakeTime_def msPerDay_def msPerHour_def
        msPerMinute_def msPerSecond_def)
  then have "t div msPerMinute = (day * 24 + h) * 60 + mi"
    using s by (intro int_div_pos_eq[of _ _ _ "s * 1000"]) (simp_all add: msPerMinute_def)
  moreover have "((day * 24 + h) * 60 + mi) mod 60 = mi"
    unfolding mod_mult_self3 using mi by simp
  ultimately show "MinFromTime t = mi" by (simp only: MinFromTime_def)
qed

subsection \<open>Facts about indentRow\<close>

lemma mapi_length [simp]: "length (mapi f xs) = length xs"
  by (simp add: mapi_def)

lemma mapi_nth [simp]: "i < length xs \<Longrightarrow> mapi f xs ! i = f i (xs ! i)"
  by (simp add: mapi_def nth_enumerate_eq)

lemma indentRow_length: "length (data (indentRow k delta st)) = length (data st)"
  by (simp add: indentRow_def Let_def setAndPropagate_def)

lemma indentRow_other:
  assumes "i < length (data st)" "int i \<noteq> k"
  shows "data (indentRow k delta st) ! i = data st ! i"
  using assms by (simp add: indentRow_def Let_def setAndPropagate_def)

lemma indentRow_at:
  assumes "0 \<le> k" "k < int (length (data st))"
  shows "data (indentRow k delta st) ! nat k =
    (data st ! nat k)\<lparr>indent :=
      clamp (indent (data st ! nat k) + delta) 0
        ((if k > 0 then indent (data st ! nat (k - 1)) else 0) + 1)\<rparr>"
  using assms by (simp add: indentRow_def Let_def setAndPropagate_def)

lemma indentRow_indent_at:
  assumes "0 \<le> k" "k < int (length (data st))"
  shows "indent (data (indentRow k delta st) ! nat k) =
      clamp (indent (data st ! nat k) + delta) 0
        ((if k > 0 then indent (data st ! nat (k - 1)) else 0) + 1)"
  using indentRow_at[OF assms] by simp

lemma indentRow_keeps_invariant:
  assumes inv: "\<forall>i < length (data st). indent_ok (data st) i"
    and i: "i < length (data st)"
    and ok: "0 \<le> delta \<or> int i \<noteq> k + 1"
  shows "indent_ok (data (indentRow k delta st)) i"
proof (cases "0 \<le> k \<and> k < int (length (data st))")
  case False
  then have "indentRow k delta st = st" by (auto simp: indentRow_def)
  then show ?thesis using inv i by simp
next
  case True
  let ?rows = "data st" and ?rows' = "data (indentRow k delta st)"
  have at: "indent (?rows' ! nat k) = clamp (indent (?rows ! nat k) + delta) 0
        ((if k > 0 then indent (?rows ! nat (k - 1)) else 0) + 1)"
    using indentRow_indent_at True by blast
  have other: "\<And>j. j < length ?rows \<Longrightarrow> int j \<noteq> k \<Longrightarrow> ?rows' ! j = ?rows ! j"
    by (rule indentRow_other)
  have "nat k < length ?rows" using True by linarith
  then have ki: "indent_ok ?rows (nat k)" using inv by blast
  consider "int i = k" | "int i = k + 1" | "int i \<noteq> k" "int i \<noteq> k + 1" by blast
  then show ?thesis
  proof cases
    case 1
    then have ik: "i = nat k" by simp
    show ?thesis
    proof (cases "i = 0")
      case True
      then show ?thesis using at 1 by (simp add: indent_ok_def clamp_def ik)
    next
      case False
      then have p: "?rows' ! (i - 1) = ?rows ! (i - 1)" using other[of "i - 1"] i 1 by simp
      have "0 \<le> indent (?rows ! (i - 1))" using inv i False by (simp add: indent_ok_def)
      moreover have "nat (k - 1) = i - 1" "k > 0" using 1 False by simp_all
      ultimately show ?thesis using at False p ik[symmetric]
        by (simp add: indent_ok_def clamp_def)
    qed
  next
    case 2
    then have d: "0 \<le> delta" using ok by simp
    from 2 have i1: "i - 1 = nat k" "i \<noteq> 0" using True by simp_all
    have same: "?rows' ! i = ?rows ! i" using other[OF i] 2 by simp
    have "indent (?rows ! nat k) \<le> indent (?rows' ! nat k)"
    proof -
      have "nat (k - 1) = nat k - 1" by simp
      then show ?thesis using ki d unfolding at
        by (auto simp: indent_ok_def clamp_def split: if_splits)
    qed
    moreover have "indent_ok ?rows i" using inv i by simp
    ultimately show ?thesis using same i1 by (simp add: indent_ok_def)
  next
    case 3
    have same: "?rows' ! i = ?rows ! i" using other[OF i] 3 by simp
    have "i \<noteq> 0 \<Longrightarrow> ?rows' ! (i - 1) = ?rows ! (i - 1)"
      using other[of "i - 1"] i 3 by (simp add: of_nat_diff)
    moreover have "indent_ok ?rows i" using inv i by simp
    ultimately show ?thesis using same by (auto simp add: indent_ok_def)
  qed
qed

lemma indentRow_clamps_adjusted_row:
  assumes "0 \<le> k" "k < int (length (data st))"
    and "0 < k \<Longrightarrow> 0 \<le> indent (data st ! nat (k - 1))"
  shows "indent_ok (data (indentRow k delta st)) (nat k)"
proof (cases "k = 0")
  case True
  then show ?thesis using assms(2)
    by (auto simp: indentRow_def Let_def setAndPropagate_def indent_ok_def clamp_def mapi_nth
        max_def min_def)
next
  case False
  then have k: "0 < k" "nat k - 1 = nat (k - 1)" "nat (k - 1) < length (data st)"
    "int (nat (k - 1)) \<noteq> k" "nat k < length (data st)" "int (nat k) = k" "nat k \<noteq> 0"
    using assms(1,2) by auto
  show ?thesis using assms(3)[OF k(1)] k
    by (auto simp: indentRow_def Let_def setAndPropagate_def indent_ok_def clamp_def mapi_nth
        max_def min_def)
qed

subsection \<open>Facts about the hierarchy loops\<close>

lemma ancestor_iff:
  "ancestor rows k i \<longleftrightarrow> k < i \<and> (\<forall>m. k < m \<and> m \<le> i \<longrightarrow> indent (rows ! k) < indent (rows ! m))"
  unfolding ancestor_def list_all_iff
  by (auto simp del: upt_Suc simp: Suc_le_eq less_Suc_eq_le)

lemma open_at_Suc:
  "open_at rows (Suc n) = n # filter (\<lambda>k. indent (rows ! k) < indent (rows ! n)) (open_at rows n)"
proof -
  have "filter (\<lambda>k. list_all (\<lambda>m. indent (rows ! k) < indent (rows ! m)) [Suc k..<Suc n])
          (rev [0..<n])
      = filter (\<lambda>k. indent (rows ! k) < indent (rows ! n))
          (filter (\<lambda>k. list_all (\<lambda>m. indent (rows ! k) < indent (rows ! m)) [Suc k..<n])
             (rev [0..<n]))"
    unfolding filter_filter by (rule filter_cong) (auto simp: list_all_iff less_Suc_eq)
  then show ?thesis by (simp add: open_at_def)
qed

lemma open_at_filter_ancestors:
  "filter (\<lambda>k. indent (rows ! k) < indent (rows ! n)) (open_at rows n) = ancestors rows n"
  unfolding open_at_def ancestors_def filter_filter
  by (rule filter_cong) (auto simp: ancestor_def list_all_iff less_Suc_eq)

lemma open_at_sorted:
  "sorted_wrt (\<lambda>a b. indent (rows ! b) < indent (rows ! a)) (open_at rows n)"
proof (induction n)
  case 0
  show ?case by (simp add: open_at_def)
next
  case (Suc n)
  then show ?case by (simp add: open_at_Suc sorted_wrt_filter)
qed

lemma dropWhile_filter_desc:
  "sorted_wrt (\<lambda>a b. f b < f a) xs \<Longrightarrow>
   dropWhile (\<lambda>k. (x::int) \<le> f k) xs = filter (\<lambda>k. f k < x) xs"
proof (induction xs)
  case Nil
  show ?case by simp
next
  case (Cons a xs)
  show ?case
  proof (cases "x \<le> f a")
    case True
    then show ?thesis using Cons by simp
  next
    case False
    then have "\<forall>b \<in> set xs. f b < x" using Cons.prems by auto
    then have "filter (\<lambda>k. f k < x) xs = xs" by (simp add: filter_id_conv)
    then show ?thesis using False by simp
  qed
qed

lemma pop_open_at:
  "dropWhile (\<lambda>k. indent (rows ! n) \<le> indent (rows ! k)) (open_at rows n) = ancestors rows n"
proof -
  have "sorted_wrt (\<lambda>a b. indent (rows ! b) < indent (rows ! a)) (open_at rows n)"
    by (rule open_at_sorted)
  then have "dropWhile (\<lambda>k. indent (rows ! n) \<le> indent (rows ! k)) (open_at rows n)
      = filter (\<lambda>k. indent (rows ! k) < indent (rows ! n)) (open_at rows n)"
    by (rule dropWhile_filter_desc)
  then show ?thesis by (simp add: open_at_filter_ancestors)
qed

lemma open_at_Suc_ancestors: "open_at rows (Suc n) = n # ancestors rows n"
  by (simp add: open_at_Suc open_at_filter_ancestors)

lemma set_ancestors: "set (ancestors rows i) = {k. ancestor rows k i}"
  by (auto simp: ancestors_def ancestor_def)

lemma ancestor_is_parent:
  assumes "ancestor rows k i"
  shows "Suc k \<le> i \<and> indent (rows ! k) < indent (rows ! Suc k)"
  using assms by (auto simp: ancestor_iff)

lemma ancestors_prev:
  assumes "indent (rows ! n) < indent (rows ! Suc n)"
  shows "ancestors rows (Suc n) \<noteq> [] \<and> hd (ancestors rows (Suc n)) = n"
proof -
  have "ancestor rows n (Suc n)" using assms by (simp add: ancestor_def)
  then show ?thesis by (simp add: ancestors_def)
qed

lemma childrenMap_push_keys:
  "map fst (map (\<lambda>(k, l). if k = p then (k, l @ [i]) else (k, l)) cm) = map fst cm"
  by (induction cm) auto

lemma childrenMap_keys:
  "set (map fst (let cm' = (if map_of cm p = None then cm @ [(p, [])] else cm)
                 in map (\<lambda>(k, l). if k = p then (k, l @ [i]) else (k, l)) cm'))
     = insert p (set (map fst cm))"
  unfolding Let_def childrenMap_push_keys
  by (auto simp: map_of_eq_None_iff)

text \<open>The loop of computeHasChildren after its first n rounds.\<close>

lemma hasChildren_loop:
  assumes "n \<le> length rows"
  shows "snd (fold (hasChildren_step rows) [0..<n] ([], []))
           = map (\<lambda>k. (k, indent (rows ! k))) (open_at rows n)
       \<and> set (map fst (fst (fold (hasChildren_step rows) [0..<n] ([], []))))
           = {k. Suc k < n \<and> indent (rows ! k) < indent (rows ! Suc k)}"
  using assms
proof (induction n)
  case 0
  show ?case by (simp add: open_at_def)
next
  case (Suc n)
  let ?s = "fold (hasChildren_step rows) [0..<n] ([], [])"
  have st: "snd ?s = map (\<lambda>k. (k, indent (rows ! k))) (open_at rows n)"
    and keys: "set (map fst (fst ?s)) = {k. Suc k < n \<and> indent (rows ! k) < indent (rows ! Suc k)}"
    using Suc by simp_all
  have pop: "dropWhile (\<lambda>e. indent (rows ! n) \<le> snd e) (snd ?s)
      = map (\<lambda>k. (k, indent (rows ! k))) (ancestors rows n)"
    unfolding st dropWhile_map using pop_open_at[of rows n] by (simp add: comp_def)
  have step: "fold (hasChildren_step rows) [0..<Suc n] ([], []) = hasChildren_step rows n ?s"
    by simp
  have stack': "snd (hasChildren_step rows n ?s) = map (\<lambda>k. (k, indent (rows ! k))) (open_at rows (Suc n))"
    by (simp add: hasChildren_step_def Let_def pop open_at_Suc_ancestors)
  have keys': "set (map fst (fst (hasChildren_step rows n ?s)))
      = (case ancestors rows n of [] \<Rightarrow> set (map fst (fst ?s)) | p # _ \<Rightarrow> insert p (set (map fst (fst ?s))))"
  proof (cases "ancestors rows n")
    case Nil
    then show ?thesis by (simp add: hasChildren_step_def Let_def pop)
  next
    case (Cons p ps)
    then show ?thesis
      using childrenMap_keys[of "fst ?s" p n]
      by (simp add: hasChildren_step_def pop Let_def)
  qed
  have "(case ancestors rows n of [] \<Rightarrow> set (map fst (fst ?s)) | p # _ \<Rightarrow> insert p (set (map fst (fst ?s))))
      = {k. Suc k < Suc n \<and> indent (rows ! k) < indent (rows ! Suc k)}"
  proof (cases "ancestors rows n")
    case Nil
    have "\<not> (0 < n \<and> indent (rows ! (n - 1)) < indent (rows ! n))"
    proof
      assume a: "0 < n \<and> indent (rows ! (n - 1)) < indent (rows ! n)"
      then have "ancestors rows (Suc (n - 1)) \<noteq> []" using ancestors_prev[of rows "n - 1"] by simp
      then show False using a Nil by simp
    qed
    then show ?thesis unfolding Nil keys by (auto simp: less_Suc_eq)
  next
    case (Cons p ps)
    then have "p \<in> set (ancestors rows n)" by simp
    then have "ancestor rows p n" by (simp add: set_ancestors)
    then have p: "Suc p \<le> n" "indent (rows ! p) < indent (rows ! Suc p)"
      using ancestor_is_parent by blast+
    have "0 < n \<and> indent (rows ! (n - 1)) < indent (rows ! n) \<Longrightarrow> p = n - 1"
      using ancestors_prev[of rows "n - 1"] Cons by simp
    then show ?thesis unfolding Cons keys using p by (auto simp: less_Suc_eq)
  qed
  then show ?case unfolding step using stack' keys' by simp
qed

lemma computeHasChildren_eq:
  "computeHasChildren rows = {k. Suc k < length rows \<and> indent (rows ! k) < indent (rows ! Suc k)}"
  unfolding computeHasChildren_def using hasChildren_loop[of "length rows" rows] by simp

text \<open>The loop of visibleRowIndices after its first n rounds.\<close>

lemma visible_loop:
  assumes "n \<le> length rows"
    and hc: "hc = {k. Suc k < length rows \<and> indent (rows ! k) < indent (rows ! Suc k)}"
  shows "snd (fold (visible_step rows hc C) [0..<n] ([], []))
           = map (\<lambda>k. (row_id (rows ! k), indent (rows ! k), k \<in> hc \<and> row_id (rows ! k) \<in> C))
               (open_at rows n)
       \<and> fst (fold (visible_step rows hc C) [0..<n] ([], []))
           = filter (\<lambda>i. \<forall>k \<in> set (ancestors rows i). row_id (rows ! k) \<notin> C) [0..<n]"
  using assms(1)
proof (induction n)
  case 0
  show ?case by (simp add: open_at_def)
next
  case (Suc n)
  let ?e = "\<lambda>k. (row_id (rows ! k), indent (rows ! k), k \<in> hc \<and> row_id (rows ! k) \<in> C)"
  define s where "s = fold (visible_step rows hc C) [0..<n] ([], [])"
  have st: "snd s = map ?e (open_at rows n)"
    and res: "fst s = filter (\<lambda>i. \<forall>k \<in> set (ancestors rows i). row_id (rows ! k) \<notin> C) [0..<n]"
    using Suc by (simp_all add: s_def)
  have pop: "dropWhile (\<lambda>a. indent (rows ! n) \<le> fst (snd a)) (snd s) = map ?e (ancestors rows n)"
    unfolding st dropWhile_map using pop_open_at[of rows n] by (simp add: comp_def)
  have anc_hc: "k \<in> hc" if "k \<in> set (ancestors rows n)" for k
  proof -
    from that have "ancestor rows k n" by (simp add: set_ancestors)
    then have "Suc k \<le> n" "indent (rows ! k) < indent (rows ! Suc k)"
      using ancestor_is_parent by blast+
    then show ?thesis using Suc.prems by (simp add: hc)
  qed
  have hidden: "list_ex (\<lambda>a. snd (snd a)) (map ?e (ancestors rows n))
      \<longleftrightarrow> \<not> (\<forall>k \<in> set (ancestors rows n). row_id (rows ! k) \<notin> C)"
    using anc_hc by (auto simp: list_ex_iff)
  have step: "fold (visible_step rows hc C) [0..<Suc n] ([], []) = visible_step rows hc C n s"
    by (simp add: s_def)
  have "snd (visible_step rows hc C n s) = map ?e (open_at rows (Suc n))"
    by (simp add: visible_step_def Let_def pop open_at_Suc_ancestors)
  moreover have "fst (visible_step rows hc C n s)
      = filter (\<lambda>i. \<forall>k \<in> set (ancestors rows i). row_id (rows ! k) \<notin> C) [0..<Suc n]"
    unfolding visible_step_def Let_def pop hidden by (simp add: res)
  ultimately show ?case unfolding step by simp
qed

lemma visible_rows_eq:
  "visible_rows rows C
     = filter (\<lambda>i. \<forall>k \<in> set (ancestors rows i). row_id (rows ! k) \<notin> C) [0..<length rows]"
  unfolding visible_rows_def visibleRowIndices_def
  using visible_loop[where n = "length rows" and rows = rows and C = C
      and hc = "computeHasChildren rows"] computeHasChildren_eq[of rows]
  by simp

lemma visible_rows_sorted: "sorted (visible_rows rows C)" "distinct (visible_rows rows C)"
  by (simp_all add: visible_rows_eq sorted_wrt_filter)

lemma visible_rows_collapse:
  assumes "distinct (map row_id rows)" "p < length rows"
  shows "visible_rows rows (insert (row_id (rows ! p)) C)
     = filter (\<lambda>i. \<not> ancestor rows p i) (visible_rows rows C)"
proof -
  have "(\<forall>k \<in> set (ancestors rows i). row_id (rows ! k) \<notin> insert (row_id (rows ! p)) C)
      \<longleftrightarrow> \<not> ancestor rows p i \<and> (\<forall>k \<in> set (ancestors rows i). row_id (rows ! k) \<notin> C)"
    if "i < length rows" for i
  proof -
    have "row_id (rows ! k) = row_id (rows ! p) \<longleftrightarrow> k = p" if "k \<in> set (ancestors rows i)" for k
    proof -
      from that have "k < i" by (simp add: set_ancestors ancestor_def)
      then have "k < length rows" using \<open>i < length rows\<close> by simp
      then show ?thesis using assms by (auto simp: distinct_conv_nth)
    qed
    then show ?thesis by (auto simp: set_ancestors)
  qed
  then show ?thesis
    unfolding visible_rows_eq filter_filter by (intro filter_cong) auto
qed

subsection \<open>Facts about indexOf and find\<close>

lemma indexOf_lower: "- 1 \<le> indexOf xs x"
  by (induction xs) (auto simp: Let_def)

lemma indexOf_absent: "indexOf xs x = - 1 \<longleftrightarrow> x \<notin> set xs"
proof (induction xs)
  case Nil
  show ?case by simp
next
  case (Cons y ys)
  then show ?case using indexOf_lower[of ys x] by (auto simp: Let_def)
qed

lemma find_sorted_least:
  assumes "sorted xs" "find (\<lambda>v. (r::nat) \<le> v) xs = Some w"
  shows "w \<in> set xs \<and> r \<le> w \<and> (\<forall>v \<in> set xs. r \<le> v \<longrightarrow> w \<le> v)"
  using assms
proof (induction xs)
  case Nil
  then show ?case by simp
next
  case (Cons a xs)
  then show ?case by (auto split: if_splits)
qed

subsection \<open>Facts about commits, the session guard and the paste loops\<close>

lemma commitEdit_first:
  assumes "lastCommittedSession st \<noteq> Some (editSessionId st)" "c < length (cols st)"
  shows "\<exists>st'. commitEdit env r c v st = Some st'
    \<and> lastCommittedSession st' = Some (editSessionId st')
    \<and> editSessionId st' = editSessionId st
    \<and> onChange_calls st' = onChange_calls st @ [data st']
    \<and> onCellCommit_calls st' = onCellCommit_calls st @
         [\<lparr>commit_row = r, commit_col = c, columnKey = key (cols st ! c),
           prev = cell_at (store st) (data st) r (key (cols st ! c)),
           next = coerce_value env (dateFormat st) (cols st ! c) v\<rparr>]"
  using assms
  by (simp add: commitEdit_def commitCellValue_def Let_def setAndPropagate_def
      setEditingBoth_def)

lemma commitEdit_again:
  "lastCommittedSession st = Some (editSessionId st) \<Longrightarrow> commitEdit env r c v st = Some st"
  by (simp add: commitEdit_def)

lemma commitEdits_noop:
  "lastCommittedSession st = Some (editSessionId st) \<Longrightarrow> commitEdits env calls st = Some st"
  by (induction calls) (auto simp: commitEdit_again)

lemma startEditing_frame:
  assumes "startEditing env e st = Some st'"
  shows "lastCommittedSession st' \<noteq> Some (editSessionId st')" "cols st' = cols st"
    "data st' = data st" "store st' = store st" "dateFormat st' = dateFormat st"
    "onChange_calls st' = onChange_calls st" "onCellCommit_calls st' = onCellCommit_calls st"
  using assms
  by (auto simp: startEditing_def Let_def setEditingBoth_def split: if_splits)

lemma startEditing_some:
  "edit_c e < length (cols st) \<Longrightarrow> \<exists>st'. startEditing env e st = Some st'"
  by (simp add: startEditing_def Let_def)

lemma mapi_update_one:
  "mapi (\<lambda>i x. if i = r then g x else x) xs = xs[r := g (xs ! r)]"
  by (rule nth_equalityI) (simp_all add: mapi_length mapi_nth nth_list_update)

lemma commitEdit_first_writes:
  assumes "lastCommittedSession st \<noteq> Some (editSessionId st)" "c < length (cols st)"
  shows "\<exists>st'. commitEdit env r c v st = Some st'
    \<and> cols st' = cols st
    \<and> data st' = (data st)[r := (data st ! r)\<lparr>cells := length (store st)\<rparr>]
    \<and> store st' =
        (if r < length (data st)
         then store st @ [(store st ! cells (data st ! r))
                 (key (cols st ! c) \<mapsto> coerce_value env (dateFormat st) (cols st ! c) v)]
         else store st)
    \<and> editing st' = None"
  using assms
  by (simp add: commitEdit_def commitCellValue_def Let_def setAndPropagate_def
      setEditingBoth_def mapi_update_one)

lemma cell_at_fresh:
  assumes "r < length rows"
  shows "cell_at (h @ [obj]) (rows[r := (rows ! r)\<lparr>cells := length h\<rparr>]) r k
    = (case obj k of None \<Rightarrow> Undefined | Some v \<Rightarrow> v)"
  using assms by (simp add: cell_at_def)

lemma drag_selection_ordered:
  "r1 (drag_selection r c r0 c0) \<le> r2 (drag_selection r c r0 c0)
   \<and> c1 (drag_selection r c r0 c0) \<le> c2 (drag_selection r c r0 c0)"
  by (simp add: drag_selection_def min_def max_def)

lemma commitCellValue_keeps_store:
  assumes "commitCellValue env r c raw e st = Some st'" "a < length (store st)"
  shows "store st' ! a = store st ! a"
  using assms
  by (auto simp: commitCellValue_def Let_def setAndPropagate_def setEditingBoth_def nth_append
      split: if_splits)

lemma commitCellValue_keeps_previous_collection:
  assumes "commitCellValue env r c raw e st = Some st'"
    and "\<forall>row \<in> set (data st). cells row < length (store st)"
  shows "cell_at (store st') (data st) i k = cell_at (store st) (data st) i k"
proof (cases "i < length (data st)")
  case True
  then have "cells (data st ! i) < length (store st)" using assms(2) by simp
  then show ?thesis using commitCellValue_keeps_store[OF assms(1)] by (simp add: cell_at_def)
next
  case False
  then show ?thesis by (simp add: cell_at_def)
qed

lemma indentRow_keeps_store: "store (indentRow k delta st) = store st"
  by (simp add: indentRow_def Let_def setAndPropagate_def)

lemma paste_cells_length [simp]:
  "length (paste_cells env fmt cs c0 a j line h) = length h"
  by (induction line arbitrary: j h) (simp_all add: Let_def)

lemma paste_cells_other:
  "b \<noteq> a \<Longrightarrow> paste_cells env fmt cs c0 a j line h ! b = h ! b"
  by (induction line arbitrary: j h) (simp_all add: Let_def)

lemma paste_cells_step:
  "paste_cells env fmt cs (int n) a j (raw # rest) h =
     (if length cs \<le> n + j then h
      else paste_cells env fmt cs (int n) a (Suc j) rest
             (h[a := (h ! a)(key (cs ! (n + j)) \<mapsto> coerce_value env fmt (cs ! (n + j)) raw)]))"
proof -
  have "nat (int n + int j) = n + j" by simp
  moreover have "int (length cs) \<le> int n + int j \<longleftrightarrow> length cs \<le> n + j" by linarith
  ultimately show ?thesis by (simp add: Let_def)
qed

lemma paste_cells_untouched:
  assumes "\<forall>j' < length line. n + j + j' < length cs \<longrightarrow> key (cs ! (n + j + j')) \<noteq> k"
  shows "(paste_cells env fmt cs (int n) a j line h ! a) k = (h ! a) k"
  using assms
proof (induction line arbitrary: j h)
  case Nil
  show ?case by simp
next
  case (Cons raw rest)
  show ?case
  proof (cases "length cs \<le> n + j")
    case True
    then show ?thesis by (simp add: paste_cells_step del: paste_cells.simps)
  next
    case False
    have k: "key (cs ! (n + j)) \<noteq> k" using Cons.prems[rule_format, of 0] False by simp
    have "\<forall>j' < length rest. n + Suc j + j' < length cs \<longrightarrow> key (cs ! (n + Suc j + j')) \<noteq> k"
    proof (intro allI impI)
      fix j' assume "j' < length rest" "n + Suc j + j' < length cs"
      then show "key (cs ! (n + Suc j + j')) \<noteq> k"
        using Cons.prems[rule_format, of "Suc j'"] by simp
    qed
    from Cons.IH[OF this]
    show ?thesis using False k
      by (cases "a < length h")
        (simp_all add: paste_cells_step list_update_beyond del: paste_cells.simps)
  qed
qed

lemma paste_cells_written:
  assumes "distinct (map key cs)" "a < length h"
    and "j' < length line" "n + j + j' < length cs"
  shows "(paste_cells env fmt cs (int n) a j line h ! a) (key (cs ! (n + j + j')))
     = Some (coerce_value env fmt (cs ! (n + j + j')) (line ! j'))"
  using assms(2-)
proof (induction line arbitrary: j j' h)
  case Nil
  then show ?case by simp
next
  case (Cons raw rest)
  have inr: "\<not> length cs \<le> n + j" using Cons.prems by simp
  let ?h1 = "h[a := (h ! a)(key (cs ! (n + j)) \<mapsto> coerce_value env fmt (cs ! (n + j)) raw)]"
  have step: "paste_cells env fmt cs (int n) a j (raw # rest) h
      = paste_cells env fmt cs (int n) a (Suc j) rest ?h1"
    using inr by (simp add: paste_cells_step del: paste_cells.simps)
  show ?case
  proof (cases j')
    case 0
    have "\<forall>i < length rest. n + Suc j + i < length cs \<longrightarrow>
             key (cs ! (n + Suc j + i)) \<noteq> key (cs ! (n + j))"
    proof (intro allI impI)
      fix i assume "i < length rest" "n + Suc j + i < length cs"
      then show "key (cs ! (n + Suc j + i)) \<noteq> key (cs ! (n + j))"
        using assms(1) inr by (simp add: distinct_conv_nth)
    qed
    from paste_cells_untouched[OF this, of env fmt a ?h1]
    show ?thesis unfolding step using 0 Cons.prems(1) by simp
  next
    case (Suc i)
    have "(paste_cells env fmt cs (int n) a (Suc j) rest ?h1 ! a) (key (cs ! (n + Suc j + i)))
        = Some (coerce_value env fmt (cs ! (n + Suc j + i)) (rest ! i))"
      using Cons.prems Suc by (intro Cons.IH) simp_all
    then show ?thesis unfolding step using Suc by simp
  qed
qed

lemma paste_lines_length [simp]:
  "length (paste_lines env fmt cs c0 nxt vis start i lines h) = length h"
  by (induction lines arbitrary: i h) (simp_all add: Let_def)

text \<open>A cell that no clipboard cell is aimed at keeps its value.\<close>

lemma paste_lines_untouched:
  assumes "\<forall>i' < length lines. start + i + i' < length vis \<longrightarrow>
             cells (nxt ! (vis ! (start + i + i'))) = b \<longrightarrow>
             (\<forall>j' < length (lines ! i'). n + j' < length cs \<longrightarrow> key (cs ! (n + j')) \<noteq> k)"
  shows "(paste_lines env fmt cs (int n) nxt vis start i lines h ! b) k = (h ! b) k"
  using assms
proof (induction lines arbitrary: i h)
  case Nil
  show ?case by simp
next
  case (Cons line rest)
  show ?case
  proof (cases "length vis \<le> start + i")
    case True
    then show ?thesis by simp
  next
    case False
    let ?a = "cells (nxt ! (vis ! (start + i)))"
    let ?h1 = "paste_cells env fmt cs (int n) ?a 0 line h"
    have h1: "(?h1 ! b) k = (h ! b) k"
    proof (cases "b = ?a")
      case True
      have "\<forall>j' < length line. n + 0 + j' < length cs \<longrightarrow> key (cs ! (n + 0 + j')) \<noteq> k"
        using Cons.prems[rule_format, of 0] False True by simp
      from paste_cells_untouched[OF this] show ?thesis using True by simp
    next
      case False
      then show ?thesis by (simp add: paste_cells_other)
    qed
    have "\<forall>i' < length rest. start + Suc i + i' < length vis \<longrightarrow>
             cells (nxt ! (vis ! (start + Suc i + i'))) = b \<longrightarrow>
             (\<forall>j' < length (rest ! i'). n + j' < length cs \<longrightarrow> key (cs ! (n + j')) \<noteq> k)"
    proof (intro allI impI)
      fix i' j'
      assume "i' < length rest" "start + Suc i + i' < length vis"
        "cells (nxt ! (vis ! (start + Suc i + i'))) = b" "j' < length (rest ! i')"
        "n + j' < length cs"
      then show "key (cs ! (n + j')) \<noteq> k"
        using Cons.prems[rule_format, of "Suc i'" j'] by simp
    qed
    from Cons.IH[OF this, of ?h1] show ?thesis using False h1 by (simp add: Let_def)
  qed
qed

text \<open>A cell that a clipboard cell is aimed at holds the coerced clipboard text.\<close>

lemma paste_lines_written:
  assumes dk: "distinct (map key cs)"
    and dv: "distinct (map (\<lambda>v. cells (nxt ! v)) vis)"
    and wf: "\<forall>v \<in> set vis. cells (nxt ! v) < length h"
    and i': "i' < length lines" "start + i + i' < length vis"
    and j': "j' < length (lines ! i')" "n + j' < length cs"
  shows "(paste_lines env fmt cs (int n) nxt vis start i lines h
            ! cells (nxt ! (vis ! (start + i + i')))) (key (cs ! (n + j')))
     = Some (coerce_value env fmt (cs ! (n + j')) (lines ! i' ! j'))"
  using wf i' j'
proof (induction lines arbitrary: i i' h)
  case Nil
  then show ?case by simp
next
  case (Cons line rest)
  have inr: "\<not> length vis \<le> start + i" using Cons.prems by simp
  let ?a = "cells (nxt ! (vis ! (start + i)))"
  let ?h1 = "paste_cells env fmt cs (int n) ?a 0 line h"
  have step: "paste_lines env fmt cs (int n) nxt vis start i (line # rest) h
      = paste_lines env fmt cs (int n) nxt vis start (Suc i) rest ?h1"
    using inr by (simp add: Let_def)
  have wf1: "\<forall>v \<in> set vis. cells (nxt ! v) < length ?h1" using Cons.prems(1) by simp
  show ?case
  proof (cases i')
    case 0
    have a: "?a < length h" using Cons.prems(1) inr by simp
    have w: "(?h1 ! ?a) (key (cs ! (n + j'))) = Some (coerce_value env fmt (cs ! (n + j')) (line ! j'))"
      using paste_cells_written[OF dk a, of j' line n 0 env fmt] Cons.prems 0 by simp
    have "\<forall>i'' < length rest. start + Suc i + i'' < length vis \<longrightarrow>
             cells (nxt ! (vis ! (start + Suc i + i''))) = ?a \<longrightarrow>
             (\<forall>j'' < length (rest ! i''). n + j'' < length cs \<longrightarrow>
                key (cs ! (n + j'')) \<noteq> key (cs ! (n + j')))"
    proof (intro allI impI)
      fix i'' j''
      assume "start + Suc i + i'' < length vis"
        and eq: "cells (nxt ! (vis ! (start + Suc i + i''))) = ?a"
      then have "map (\<lambda>v. cells (nxt ! v)) vis ! (start + Suc i + i'')
          = map (\<lambda>v. cells (nxt ! v)) vis ! (start + i)"
        using inr by simp
      then have "start + Suc i + i'' = start + i"
        using dv \<open>start + Suc i + i'' < length vis\<close> inr
        by (simp add: distinct_conv_nth del: nth_map)
      then show "key (cs ! (n + j'')) \<noteq> key (cs ! (n + j'))" by simp
    qed
    from paste_lines_untouched[OF this, of env fmt ?h1]
    show ?thesis unfolding step using 0 w by simp
  next
    case (Suc i'')
    have "(paste_lines env fmt cs (int n) nxt vis start (Suc i) rest ?h1
            ! cells (nxt ! (vis ! (start + Suc i + i'')))) (key (cs ! (n + j')))
        = Some (coerce_value env fmt (cs ! (n + j')) (rest ! i'' ! j'))"
      using Cons.prems Suc wf1 by (intro Cons.IH) simp_all
    then show ?thesis unfolding step using Suc by simp
  qed
qed

lemma indexOf_nth:
  "distinct xs \<Longrightarrow> p < length xs \<Longrightarrow> indexOf xs (xs ! p) = int p"
proof (induction xs arbitrary: p)
  case Nil
  then show ?case by simp
next
  case (Cons y ys)
  show ?case
  proof (cases p)
    case 0
    then show ?thesis by simp
  next
    case (Suc q)
    then have "indexOf ys (ys ! q) = int q" "ys ! q \<noteq> y" "ys ! q \<in> set ys"
      using Cons by auto
    then show ?thesis using Suc by (simp add: Let_def)
  qed
qed

lemma visible_rows_bound: "v \<in> set (visible_rows rows C) \<Longrightarrow> v < length rows"
  by (simp add: visible_rows_eq)

lemma visible_cells_distinct:
  assumes "distinct (map cells rows)"
  shows "distinct (map (\<lambda>v. cells (rows ! v)) (visible_rows rows C))"
proof -
  have "inj_on (\<lambda>v. cells (rows ! v)) (set (visible_rows rows C))"
  proof (rule inj_onI)
    fix x y
    assume "x \<in> set (visible_rows rows C)" "y \<in> set (visible_rows rows C)"
      and "cells (rows ! x) = cells (rows ! y)"
    then have "x < length rows" "y < length rows" "map cells rows ! x = map cells rows ! y"
      using visible_rows_bound by simp_all
    then show "x = y" using assms nth_eq_iff_index_eq[of "map cells rows" x y] by simp
  qed
  then show ?thesis using visible_rows_sorted(2) by (simp add: distinct_map)
qed

subsection \<open>Facts about the matchers, the Date constructor and the formatter\<close>

lemma digits12_shape:
  assumes "digits12 t = Some (g, rest)" "lit sep rest = Some rest'" "\<not> is_digit sep"
  shows "(\<exists>a. t = a # sep # rest' \<and> is_digit a) \<or> (\<exists>a b. t = a # b # sep # rest' \<and> is_digit a \<and> is_digit b)"
proof (cases t rule: digits12.cases)
  case (1 a b r)
  show ?thesis
  proof (cases "is_digit a \<and> is_digit b")
    case True
    then have "rest = r" using assms(1) 1 by simp
    then obtain "r = sep # rest'" using assms(2) by (cases r) (auto split: if_splits)
    then show ?thesis using 1 True by simp
  next
    case False
    then have "is_digit a" "rest = b # r" using assms(1) 1 by (auto split: if_splits)
    then show ?thesis using assms(2) 1 by (auto split: if_splits)
  qed
next
  case (2 a)
  then show ?thesis using assms by (auto split: if_splits)
next
  case 3
  then show ?thesis using assms by simp
qed

lemma digitsN4_not:
  assumes "\<not> is_digit sep" "t = a # sep # r \<or> t = a # b # sep # r"
  shows "digitsN 4 t = None"
proof (cases "4 \<le> length t")
  case False
  then show ?thesis by (simp add: digitsN_def)
next
  case True
  from assms(2) show ?thesis
  proof
    assume t: "t = a # sep # r"
    then obtain c d r' where "r = c # d # r'" using True by (cases r; cases "tl r") auto
    then show ?thesis using t assms(1) by (simp add: digitsN_def)
  next
    assume t: "t = a # b # sep # r"
    then obtain c r' where "r = c # r'" using True by (cases r) auto
    then show ?thesis using t assms(1) by (simp add: digitsN_def)
  qed
qed

lemma match_sep_shape:
  assumes "match_sep sep t = Some r" "\<not> is_digit sep"
  shows "\<exists>a b rest. is_digit a \<and> (t = a # sep # rest \<or> (t = a # b # sep # rest \<and> is_digit b))"
proof -
  from assms(1) obtain g rest rest' where "digits12 t = Some (g, rest)" "lit sep rest = Some rest'"
    by (auto simp: match_sep_def split: option.splits)
  from digits12_shape[OF this assms(2)] show ?thesis by blast
qed

lemma match_sep_not_iso:
  assumes "match_sep sep t = Some r" "\<not> is_digit sep"
  shows "match_iso t = None"
proof -
  from match_sep_shape[OF assms] obtain a b rest where
    "t = a # sep # rest \<or> t = a # b # sep # rest" by blast
  from digitsN4_not[OF assms(2) this] show ?thesis by (simp add: match_iso_def)
qed

lemma match_sep_exclusive:
  assumes "match_sep sep t = Some r" "\<not> is_digit sep" "sep' \<noteq> sep"
  shows "match_sep sep' t = None"
proof -
  from match_sep_shape[OF assms(1,2)] obtain a b rest where
    t: "is_digit a" "t = a # sep # rest \<or> (t = a # b # sep # rest \<and> is_digit b)" by blast
  then show ?thesis using assms(2,3)
    by (auto simp: match_sep_def split: option.splits if_splits)
qed

lemma sep_not_digit: "\<not> is_digit CHR ''.''" "\<not> is_digit CHR ''/''"
  by (simp_all add: is_digit_def)

lemma parse_iso:
  assumes "match_iso (trim s) = Some (yyyy, mm, dd, hh, mi, ss)"
  shows "parseDateFlexible s hint
    = new_Date (int yyyy) (int mm - 1) (int dd) (group0 hh) (group0 mi) (group0 ss)"
proof -
  have "trim s \<noteq> []" using assms by (auto simp: match_iso_def digitsN_def)
  moreover then have "s \<noteq> []" by (auto simp: trim_def)
  ultimately show ?thesis using assms by (simp add: parseDateFlexible_def Let_def)
qed

lemma parse_dot:
  assumes "match_sep CHR ''.'' (trim s) = Some (dd, mm, yyyy, hh, mi)"
  shows "parseDateFlexible s hint
    = new_Date (int yyyy) (int mm - 1) (int dd) (group0 hh) (group0 mi) 0"
proof -
  have "trim s \<noteq> []" using assms by (auto simp: match_sep_def)
  moreover then have "s \<noteq> []" by (auto simp: trim_def)
  moreover have "match_iso (trim s) = None"
    using match_sep_not_iso[OF assms sep_not_digit(1)] .
  ultimately show ?thesis using assms by (simp add: parseDateFlexible_def Let_def)
qed

lemma parse_slash:
  assumes "match_sep CHR ''/'' (trim s) = Some (a, b, yyyy, hh, mi)"
  shows "parseDateFlexible s hint
    = new_Date (int yyyy) (snd (slash_day_month (int a) (int b) hint) - 1)
        (fst (slash_day_month (int a) (int b) hint)) (group0 hh) (group0 mi) 0"
proof -
  have "trim s \<noteq> []" using assms by (auto simp: match_sep_def)
  moreover then have "s \<noteq> []" by (auto simp: trim_def)
  moreover have "match_iso (trim s) = None"
    using match_sep_not_iso[OF assms sep_not_digit(2)] .
  moreover have "match_sep CHR ''.'' (trim s) = None"
    using match_sep_exclusive[OF assms sep_not_digit(2)] by simp
  ultimately show ?thesis using assms
    by (simp add: parseDateFlexible_def Let_def split_beta)
qed

lemma digit_val_le: "is_digit c \<Longrightarrow> digit_val c \<le> 9"
  by (auto simp: is_digit_def digit_val_def)

lemma Number_digits_snoc: "Number_digits (ds @ [c]) = 10 * Number_digits ds + digit_val c"
  by (simp add: Number_digits_def)

lemma Number_digits_less:
  "list_all is_digit ds \<Longrightarrow> Number_digits ds < 10 ^ length ds"
proof (induction ds rule: rev_induct)
  case Nil
  show ?case by (simp add: Number_digits_def)
next
  case (snoc c ds)
  then have "Number_digits ds < 10 ^ length ds" "digit_val c \<le> 9"
    by (simp_all add: digit_val_le)
  then have "10 * Number_digits ds + digit_val c < 10 * 10 ^ length ds" by linarith
  then show ?case by (simp add: Number_digits_snoc)
qed

lemma digitsN_less: "digitsN n t = Some (g, rest) \<Longrightarrow> g < 10 ^ n"
  using Number_digits_less[of "take n t"]
  by (auto simp: digitsN_def min_def split: if_splits)

lemma match_iso_year: "match_iso t = Some (yyyy, r) \<Longrightarrow> yyyy \<le> 9999"
proof -
  assume "match_iso t = Some (yyyy, r)"
  then obtain rest where "digitsN 4 t = Some (yyyy, rest)"
    by (auto simp: match_iso_def split: option.splits)
  from digitsN_less[OF this] show ?thesis by simp
qed

lemma match_sep_year: "match_sep sep t = Some (a, b, yyyy, r) \<Longrightarrow> yyyy \<le> 9999"
proof -
  assume "match_sep sep t = Some (a, b, yyyy, r)"
  then obtain u rest where "digitsN 4 u = Some (yyyy, rest)"
    by (auto simp: match_sep_def split: option.splits)
  from digitsN_less[OF this] show ?thesis by simp
qed

text \<open>A valid calendar date from year 100 on, with a valid time of day, gives a valid
  Date whose local fields are the components passed in.\<close>

lemma new_Date_valid:
  assumes v: "valid_ymd y m d" and y: "100 \<le> y" "y \<le> 9999"
    and h: "0 \<le> h" "h < 24" and mi: "0 \<le> mi" "mi < 60" and s: "0 \<le> s" "s < 60"
  shows "\<exists>D. new_Date y (m - 1) d h mi s = Some D
    \<and> getFullYear D = y \<and> getMonth D = m - 1 \<and> getDate D = d
    \<and> getHours D = h \<and> getMinutes D = mi"
proof -
  let ?t = "MakeDate (MakeDay y (m - 1) d) (MakeTime h mi s 0)"
  let ?w = "days_before_month (InLeapYear_of y) (m - 1) + (d - 1)"
  from v have m: "1 \<le> m" "m \<le> 12" and d: "1 \<le> d" "d \<le> days_in_month (InLeapYear_of y) m"
    by (simp_all add: valid_ymd_def)
  have day: "Day ?t = DayFromYear y + ?w" by (rule valid_time_value(1)[OF v h mi s])
  have w: "0 \<le> ?w" "?w < 365 + InLeapYear_of y"
    using day_within_year_bounds(1,2)[OF InLeapYear_of_cases m d] by simp_all
  have lo: "DayFromYear 100 \<le> DayFromYear y" and hi: "DayFromYear y \<le> DayFromYear 9999"
    using y by (simp_all add: DayFromYear_mono)
  have c: "DayFromYear 100 = - 683003" "DayFromYear 9999 = 2932532"
    by (simp_all add: DayFromYear_def)
  have md: "MakeDay y (m - 1) d = DayFromYear y + ?w"
    using m by (simp add: MakeDay_def)
  have tm: "0 \<le> MakeTime h mi s 0" "MakeTime h mi s 0 < msPerDay"
    using h mi s
    by (simp_all add: MakeTime_def msPerDay_def msPerHour_def msPerMinute_def msPerSecond_def)
  have l: "InLeapYear_of y \<le> 1" using InLeapYear_of_cases[of y] by auto
  have X: "- 683003 \<le> DayFromYear y + ?w" "DayFromYear y + ?w \<le> 2932898"
    using lo hi w l unfolding c by linarith+
  have "- 683003 * 86400000 \<le> (DayFromYear y + ?w) * 86400000"
    "(DayFromYear y + ?w) * 86400000 \<le> 2932898 * 86400000"
    using X by simp_all
  then have "\<bar>?t\<bar> \<le> 8640000000000000"
    using tm unfolding md MakeDate_def msPerDay_def abs_le_iff by linarith
  then have nd: "new_Date y (m - 1) d h mi s = Some (Date ?t)"
    using y by (simp add: new_Date_def TimeClip_def)
  show ?thesis
    unfolding nd
    using valid_time_value(2)[OF v h mi s] valid_month_date[OF v h mi s]
      valid_hour_min[OF h mi s, of "MakeDay y (m - 1) d"]
    by (simp add: getFullYear_def getMonth_def getDate_def getHours_def getMinutes_def)
qed

lemma digit_char_digit: "k < 10 \<Longrightarrow> is_digit (digit_char k)"
  unfolding is_digit_def digit_char_def by (rule nth_mem) simp

lemma String_nat_digits: "list_all is_digit (String_nat n)"
proof (induction n rule: String_nat.induct)
  case (1 n)
  show ?case
  proof (cases "n < 10")
    case True
    then show ?thesis by (simp add: String_nat.simps[of n] digit_char_digit)
  next
    case False
    then show ?thesis using 1 by (simp add: String_nat.simps[of n] digit_char_digit)
  qed
qed

lemma is_digit_0: "is_digit CHR ''0''"
  by (simp add: is_digit_def)

lemma pad2_digits: "0 \<le> n \<Longrightarrow> list_all is_digit (pad2 n)"
proof -
  assume "0 \<le> n"
  have "list_all is_digit (replicate k CHR ''0'')" for k
    using is_digit_0 by (induction k) simp_all
  then show ?thesis
    using String_nat_digits[of "nat n"] \<open>0 \<le> n\<close>
    by (simp add: pad2_def padStart0_def String_int_def)
qed

lemma String_int_digits: "0 \<le> n \<Longrightarrow> list_all is_digit (String_int n)"
  using String_nat_digits[of "nat n"] by (simp add: String_int_def)

lemma replace_first_skip:
  "c \<notin> set xs \<Longrightarrow> replace_first (c # ps) rep (xs @ ys) = xs @ replace_first (c # ps) rep ys"
  by (induction xs) auto

lemma letters_not_digits: "\<not> is_digit CHR ''m''" "\<not> is_digit CHR ''d''"
  by (simp_all add: is_digit_def)

lemma digits_no_letter:
  "list_all is_digit xs \<Longrightarrow> CHR ''m'' \<notin> set xs \<and> CHR ''d'' \<notin> set xs"
  using letters_not_digits by (auto simp: list_all_iff)

lemma format_canonical:
  assumes "p \<in> set [''dd.mm.yyyy'', ''dd/mm/yyyy'', ''mm/dd/yyyy'', ''yyyy-mm-dd'']"
    and "0 \<le> getFullYear D" "0 \<le> getMonth D + 1" "0 \<le> getDate D"
  shows "formatDateByPattern (Some D) p
    = canonical_date p (getFullYear D) (getMonth D + 1) (getDate D)"
proof -
  let ?Y = "String_int (getFullYear D)"
  let ?M = "padStart0 2 (String_int (getMonth D + 1))"
  let ?D = "padStart0 2 (String_int (getDate D))"
  have y: "CHR ''m'' \<notin> set ?Y" "CHR ''d'' \<notin> set ?Y"
    using digits_no_letter[OF String_int_digits[OF assms(2)]] by simp_all
  have m: "CHR ''d'' \<notin> set ?M"
    using digits_no_letter[OF pad2_digits[OF assms(3)]] by (simp add: pad2_def)
  have a: "replace_first ''dd'' ?D (?M @ ''/dd/'' @ ?Y) = ?M @ ''/'' @ ?D @ ''/'' @ ?Y"
    using replace_first_skip[OF m, of "''d''" ?D "''/dd/'' @ ?Y"] by simp
  have b1: "replace_first ''mm'' ?M (?Y @ ''-mm-dd'') = ?Y @ ''-'' @ ?M @ ''-dd''"
    using replace_first_skip[OF y(1), of "''m''" ?M "''-mm-dd''"] by simp
  have b2: "replace_first ''dd'' ?D (?M @ ''-dd'') = ?M @ ''-'' @ ?D"
    using replace_first_skip[OF m, of "''d''" ?D "''-dd''"] by simp
  have b3: "replace_first ''dd'' ?D (?Y @ ''-'' @ ?M @ ''-dd'') = ?Y @ ''-'' @ ?M @ ''-'' @ ?D"
    using replace_first_skip[OF y(2), of "''d''" ?D "''-'' @ ?M @ ''-dd''"] b2 by simp
  from assms(1) consider "p = ''dd.mm.yyyy''" | "p = ''dd/mm/yyyy''" | "p = ''mm/dd/yyyy''"
    | "p = ''yyyy-mm-dd''" by auto
  then show ?thesis
  proof cases
    case 1
    then show ?thesis by (simp add: formatDateByPattern_def canonical_date_def pad2_def Let_def)
  next
    case 2
    then show ?thesis by (simp add: formatDateByPattern_def canonical_date_def pad2_def Let_def)
  next
    case 3
    have "replace_first ''dd'' ?D (replace_first ''mm'' ?M (replace_first ''yyyy'' ?Y ''mm/dd/yyyy''))
        = ?M @ ''/'' @ ?D @ ''/'' @ ?Y"
      using a by simp
    then show ?thesis using 3
      by (simp add: formatDateByPattern_def canonical_date_def pad2_def Let_def)
  next
    case 4
    have "replace_first ''yyyy'' ?Y ''yyyy-mm-dd'' = ?Y @ ''-mm-dd''" by simp
    then have "replace_first ''dd'' ?D (replace_first ''mm'' ?M (replace_first ''yyyy'' ?Y ''yyyy-mm-dd''))
        = ?Y @ ''-'' @ ?M @ ''-'' @ ?D"
      using b1 b3 by simp
    then show ?thesis using 4
      by (simp add: formatDateByPattern_def canonical_date_def pad2_def Let_def)
  qed
qed

lemma date_fields_nonempty: "date_fields s hint = Some r \<Longrightarrow> s \<noteq> [] \<and> trim s \<noteq> []"
proof -
  assume a: "date_fields s hint = Some r"
  have "date_fields [] hint = None"
    by (simp add: date_fields_def trim_def match_iso_def match_sep_def digitsN_def)
  moreover have "trim s = [] \<Longrightarrow> date_fields s hint = None"
    by (simp add: date_fields_def match_iso_def match_sep_def digitsN_def)
  ultimately show ?thesis using a by auto
qed

lemma parse_by_fields:
  "parseDateFlexible s hint =
     (case date_fields s hint of
        None \<Rightarrow> None
      | Some (y, m, d, hh, mi, ss) \<Rightarrow> new_Date y (m - 1) d hh mi ss)"
proof (cases "date_fields s hint")
  case None
  then show ?thesis
    by (auto simp: parseDateFlexible_def date_fields_def Let_def split: option.splits prod.splits)
next
  case (Some r)
  from date_fields_nonempty[OF Some] show ?thesis
    by (auto simp: parseDateFlexible_def date_fields_def Let_def split: option.splits prod.splits)
qed

lemma date_fields_year:
  assumes "date_fields s hint = Some (y, r)"
  shows "0 \<le> y \<and> y \<le> 9999"
proof -
  have "\<And>Y q. match_iso (trim s) = Some (Y, q) \<Longrightarrow> Y \<le> 9999"
    by (rule match_iso_year)
  moreover have "\<And>sep a b Y q. match_sep sep (trim s) = Some (a, b, Y, q) \<Longrightarrow> Y \<le> 9999"
    by (rule match_sep_year)
  ultimately show ?thesis using assms
    by (fastforce simp: date_fields_def Let_def split: option.splits prod.splits)
qed

lemma date_fields_time:
  assumes "date_fields s hint = Some (y, m, d, hh, mi, ss)"
  shows "0 \<le> hh \<and> 0 \<le> mi \<and> 0 \<le> ss"
  using assms
  by (auto simp: date_fields_def Let_def group0_def split: option.splits prod.splits)

lemma slash_day_month_spec:
  "slash_day_month (int a) (int b) hint
     = (int (fst (spec_day_month a b hint)), int (snd (spec_day_month a b hint)))"
  by (auto simp: slash_day_month_def spec_day_month_def Let_def max_def min_def
      split: option.splits)

lemma new_Date_day_overflow:
  "new_Date 2026 1 31 0 0 0 = new_Date 2026 (3 - 1) 3 0 0 0"
  "new_Date 2026 0 32 0 0 0 = new_Date 2026 (2 - 1) 1 0 0 0"
  by (simp_all add: new_Date_def MakeDay_def days_before_month_def InLeapYear_of_def
      DaysInYear_def add.commute)

lemma digits12_less: "digits12 t = Some (g, rest) \<Longrightarrow> g < 100"
proof (cases t rule: digits12.cases)
  case (1 a b r)
  assume d: "digits12 t = Some (g, rest)"
  show ?thesis
  proof (cases "is_digit a \<and> is_digit b")
    case True
    then have "g = Number_digits [a, b]" using d 1 by simp
    moreover have "Number_digits [a, b] < 10 ^ length [a, b]"
      using True by (intro Number_digits_less) simp
    ultimately show ?thesis by simp
  next
    case False
    then have "is_digit a" "g = Number_digits [a]" using d 1 by (auto split: if_splits)
    moreover then have "Number_digits [a] < 10 ^ length [a]"
      by (intro Number_digits_less) simp
    ultimately show ?thesis by simp
  qed
next
  case (2 a)
  assume d: "digits12 t = Some (g, rest)"
  then have "is_digit a" "g = Number_digits [a]" using 2 by (auto split: if_splits)
  moreover then have "Number_digits [a] < 10 ^ length [a]"
    by (intro Number_digits_less) simp
  ultimately show ?thesis by simp
next
  case 3
  assume "digits12 t = Some (g, rest)"
  then show ?thesis using 3 by simp
qed

lemma group0_bound_iso:
  assumes "iso_time t = Some (hh, mi, ss)"
  shows "0 \<le> group0 hh \<and> group0 hh \<le> 99 \<and> 0 \<le> group0 mi \<and> group0 mi \<le> 99
    \<and> 0 \<le> group0 ss \<and> group0 ss \<le> 99"
proof -
  have b: "\<And>u g r. digitsN 2 u = Some (g, r) \<Longrightarrow> int g \<le> 99"
    using digitsN_less[where n = 2] by fastforce
  show ?thesis using assms
    by (auto simp: iso_time_def group0_def split: list.splits if_splits option.splits prod.splits
        dest!: b)
qed

lemma group0_bound_hm:
  assumes "hm_time t = Some (hh, mi)"
  shows "0 \<le> group0 hh \<and> group0 hh \<le> 99 \<and> 0 \<le> group0 mi \<and> group0 mi \<le> 99"
proof -
  have b: "\<And>u g r. digitsN 2 u = Some (g, r) \<Longrightarrow> int g \<le> 99"
    using digitsN_less[where n = 2] by fastforce
  have c: "\<And>u g r. digits12 u = Some (g, r) \<Longrightarrow> int g \<le> 99"
    using digits12_less by fastforce
  show ?thesis using assms
    by (auto simp: hm_time_def group0_def split: list.splits if_splits option.splits prod.splits
        dest!: b c)
qed

lemma date_fields_bounds:
  assumes "date_fields s hint = Some (y, m, d, hh, mi, ss)"
  shows "0 \<le> y \<and> y \<le> 9999 \<and> 0 \<le> m \<and> m \<le> 99 \<and> 0 \<le> d \<and> d \<le> 99
    \<and> 0 \<le> hh \<and> hh \<le> 99 \<and> 0 \<le> mi \<and> mi \<le> 99 \<and> 0 \<le> ss \<and> ss \<le> 99"
proof -
  have y: "0 \<le> y \<and> y \<le> 9999" using date_fields_year[OF assms] .
  have b2: "\<And>u g r. digitsN 2 u = Some (g, r) \<Longrightarrow> int g \<le> 99"
    using digitsN_less[where n = 2] by fastforce
  have b12: "\<And>u g r. digits12 u = Some (g, r) \<Longrightarrow> int g \<le> 99"
    using digits12_less by fastforce
  consider (iso) Y M D h' m' s' where "match_iso (trim s) = Some (Y, M, D, h', m', s')"
      "m = int M" "d = int D" "hh = group0 h'" "mi = group0 m'" "ss = group0 s'"
    | (dot) Y M D h' m' where "match_sep CHR ''.'' (trim s) = Some (D, M, Y, h', m')"
      "m = int M" "d = int D" "hh = group0 h'" "mi = group0 m'" "ss = 0"
    | (slash) a b Y h' m' where "match_sep CHR ''/'' (trim s) = Some (a, b, Y, h', m')"
      "(d, m) = slash_day_month (int a) (int b) hint" "hh = group0 h'" "mi = group0 m'" "ss = 0"
    using assms
    by (auto simp: date_fields_def Let_def split: option.splits prod.splits)
  then show ?thesis
  proof cases
    case iso
    from iso(1) obtain t3 t5 r3 r5 where
      "digitsN 2 t3 = Some (M, r3)" "digitsN 2 t5 = Some (D, r5)" "iso_time r5 = Some (h', m', s')"
      by (auto simp: match_iso_def split: option.splits prod.splits)
    then show ?thesis using y iso(2-) b2 group0_bound_iso by fastforce
  next
    case dot
    from dot(1) obtain t1 t3 r1 r3 t5 where
      "digits12 t1 = Some (D, r1)" "digits12 t3 = Some (M, r3)" "hm_time t5 = Some (h', m')"
      by (auto simp: match_sep_def split: option.splits prod.splits)
    then show ?thesis using y dot(2-) b12 group0_bound_hm by fastforce
  next
    case slash
    from slash(1) obtain t1 t3 r1 r3 t5 where
      "digits12 t1 = Some (a, r1)" "digits12 t3 = Some (b, r3)" "hm_time t5 = Some (h', m')"
      by (auto simp: match_sep_def split: option.splits prod.splits)
    then have ab: "int a \<le> 99" "int b \<le> 99"
      and t: "0 \<le> group0 h' \<and> group0 h' \<le> 99 \<and> 0 \<le> group0 m' \<and> group0 m' \<le> 99"
      using b12 group0_bound_hm by blast+
    have "(d = int a \<and> m = int b) \<or> (d = int b \<and> m = int a)"
      using slash(2) by (auto simp: slash_day_month_def Let_def split: if_splits)
    then show ?thesis using y ab t slash(3-) by auto
  qed
qed

lemma new_Date_never_invalid:
  assumes y: "0 \<le> y" "y \<le> 9999" and m: "- 1 \<le> m" "m \<le> 98" and d: "0 \<le> d" "d \<le> 99"
    and h: "0 \<le> h" "h \<le> 99" and mi: "0 \<le> mi" "mi \<le> 99" and s: "0 \<le> s" "s \<le> 99"
  shows "new_Date y m d h mi s \<noteq> None"
proof -
  define yr where "yr = (if 0 \<le> y \<and> y \<le> 99 then 1900 + y else y)"
  have yr: "100 \<le> yr" "yr \<le> 9999" using y by (auto simp: yr_def)
  have q: "- 1 \<le> m div 12" "m div 12 \<le> 8"
    using m by (simp_all add: div_le_mono[of _ 98 12] zdiv_mono1[of "- 1" m 12])
  define ym where "ym = yr + m div 12"
  have ym: "99 \<le> ym" "ym \<le> 10007" using yr q by (simp_all add: ym_def)
  have dy: "DayFromYear 99 \<le> DayFromYear ym" "DayFromYear ym \<le> DayFromYear 10007"
    using ym by (simp_all add: DayFromYear_mono)
  have c: "DayFromYear 99 = - 683368" "DayFromYear 10007 = 2935454"
    by (simp_all add: DayFromYear_def)
  have bm: "0 \<le> days_before_month (InLeapYear_of ym) (m mod 12)"
    "days_before_month (InLeapYear_of ym) (m mod 12) \<le> 335"
    using InLeapYear_of_cases[of ym] by (auto simp: days_before_month_def)
  have md: "MakeDay yr m d
      = DayFromYear ym + days_before_month (InLeapYear_of ym) (m mod 12) + d - 1"
    by (simp add: MakeDay_def ym_def Let_def)
  have X: "- 683369 \<le> MakeDay yr m d" "MakeDay yr m d \<le> 2935887"
    using dy bm d unfolding c md by linarith+
  have "- 683369 * 86400000 \<le> MakeDay yr m d * 86400000"
    "MakeDay yr m d * 86400000 \<le> 2935887 * 86400000"
    using X by simp_all
  moreover have "0 \<le> MakeTime h mi s 0" "MakeTime h mi s 0 \<le> 362439000"
    using h mi s by (simp_all add: MakeTime_def msPerHour_def msPerMinute_def msPerSecond_def)
  ultimately have "\<bar>MakeDate (MakeDay yr m d) (MakeTime h mi s 0)\<bar> \<le> 8640000000000000"
    unfolding MakeDate_def msPerDay_def abs_le_iff by linarith
  then show ?thesis by (simp add: new_Date_def TimeClip_def yr_def)
qed

lemma parse_never_null:
  assumes "date_fields s hint \<noteq> None"
  shows "parseDateFlexible s hint \<noteq> None"
proof -
  from assms obtain y m d hh mi ss where f: "date_fields s hint = Some (y, m, d, hh, mi, ss)"
    by (cases "date_fields s hint") auto
  from date_fields_bounds[OF f] have "new_Date y (m - 1) d hh mi ss \<noteq> None"
    by (intro new_Date_never_invalid) simp_all
  then show ?thesis by (simp add: parse_by_fields f)
qed


subsection \<open>Facts about date writings and token patterns\<close>







lemma String_nat_length: "0 < w \<Longrightarrow> n < 10 ^ w \<Longrightarrow> length (String_nat n) \<le> w"
proof (induction n arbitrary: w rule: String_nat.induct)
  case (1 n)
  show ?case
  proof (cases "n < 10")
    case True
    then show ?thesis using 1(2) by (simp add: String_nat.simps[of n])
  next
    case False
    obtain v where w: "w = Suc v" using 1(2) by (cases w) auto
    have "0 < v" using False 1(3) w by (cases v) auto
    moreover have "n div 10 < 10 ^ v" using 1(3) w by (simp add: div_less_iff_less_mult algebra_simps)
    ultimately have "length (String_nat (n div 10)) \<le> v" using 1(1)[OF False] by blast
    then show ?thesis using False w by (simp add: String_nat.simps[of n])
  qed
qed

lemma String_nat_nonempty: "String_nat n \<noteq> []"
  by (subst String_nat.simps) simp

lemma decimal_length: "0 < w \<Longrightarrow> n < 10 ^ w \<Longrightarrow> length (decimal w n) = w"
  using String_nat_length[of w n] by (simp add: decimal_def padStart0_def)

lemma String_nat_length_lower: "10 ^ k \<le> n \<Longrightarrow> k < length (String_nat n)"
proof (induction n arbitrary: k rule: String_nat.induct)
  case (1 n)
  show ?case
  proof (cases "n < 10")
    case True
    have "k = 0"
    proof (cases k)
      case (Suc j)
      have a: "(10::nat) ^ Suc j \<le> n" using 1(2) Suc by simp
      have b: "(10::nat) ^ 1 \<le> 10 ^ Suc j" by (rule power_increasing) simp_all
      from order_trans[OF b a] have "10 \<le> n" by simp
      then show ?thesis using True by simp
    qed simp
    then show ?thesis using True by (simp add: String_nat.simps[of n])
  next
    case False
    show ?thesis
    proof (cases k)
      case 0
      then show ?thesis using String_nat_nonempty[of n] by simp
    next
      case (Suc j)
      then have "10 ^ j \<le> n div 10" using 1(2) by (simp add: less_eq_div_iff_mult_less_eq)
      from 1(1)[OF False this] show ?thesis using False Suc by (simp add: String_nat.simps[of n])
    qed
  qed
qed

lemma four_digit_year:
  assumes "1000 \<le> y" "y \<le> 9999"
  shows "String_nat y = decimal 4 y"
proof -
  have "3 < length (String_nat y)" using String_nat_length_lower[of 3 y] assms(1) by simp
  then show ?thesis by (simp add: decimal_def padStart0_def)
qed

lemma zeros_digits: "list_all is_digit (replicate k CHR ''0'')"
  using is_digit_0 by (induction k) simp_all

lemma decimal_digits: "list_all is_digit (decimal w n)"
  by (simp add: decimal_def padStart0_def zeros_digits String_nat_digits)










lemma decimal2_cons: "n < 100 \<Longrightarrow> \<exists>a b. decimal 2 n = [a, b] \<and> is_digit a \<and> is_digit b"
proof -
  assume "n < 100"
  then have "length (decimal 2 n) = 2" using decimal_length[of 2 n] by simp
  then obtain a b where "decimal 2 n = [a, b]"
    by (cases "decimal 2 n"; cases "tl (decimal 2 n)") auto
  then show ?thesis using decimal_digits[of 2 n] by simp
qed






















text \<open>A literal with a letter of a token is another matter: in \<open>dd.mmm.yyyy\<close>, read as
  the month token after a literal m, the first \<open>mm\<close> starts at that literal, and the chain
  of replacements puts the month there.\<close>

lemma literal_with_token_letter:
  "replace_first ''dd'' (decimal 2 13)
     (replace_first ''mm'' (decimal 2 2)
       (replace_first ''yyyy'' (String_nat 2026)
         (pattern_text [TokDay, TokLit ''.m'', TokMonth, TokLit ''.'', TokYear])))
     = ''13.02m.2026''
   \<and> canonical_text [TokDay, TokLit ''.m'', TokMonth, TokLit ''.'', TokYear] 2026 2 13
     = ''13.m02.2026''"
  by code_simp






section \<open>Claims\<close>

subsection \<open>C1: texts of the right shape that name no calendar date\<close>

text \<open>
  C1 at concrete texts. The text 31.02.2026 has the dot shape and names no calendar
  date, and \<open>parseDateFlexible\<close> does not return null for it: the \<open>Date\<close> constructor
  carries the surplus days over, the result is the valid date 3 March 2026, and it is
  formatted as 03.03.2026. In the same way the ISO text 2026-01-32 is read as
  1 February 2026.
\<close>

theorem invalid_calendar_date_accepted:
  "(\<exists>D. parseDateFlexible ''31.02.2026'' (Some ''dd.mm.yyyy'') = Some D
       \<and> getFullYear D = 2026 \<and> getMonth D + 1 = 3 \<and> getDate D = 3
       \<and> formatDateByPattern (Some D) ''dd.mm.yyyy'' = ''03.03.2026'')
   \<and> (\<exists>D. parseDateFlexible ''2026-01-32'' (Some ''dd.mm.yyyy'') = Some D
       \<and> getFullYear D = 2026 \<and> getMonth D + 1 = 2 \<and> getDate D = 1)"
proof -
  have m: "match_sep CHR ''.'' (trim ''31.02.2026'') = Some (31, 2, 2026, None, None)"
    "match_iso (trim ''2026-01-32'') = Some (2026, 1, 32, None, None, None)"
    by code_simp+
  have v: "valid_ymd 2026 3 3" "valid_ymd 2026 2 1" by code_simp+
  from new_Date_valid[OF v(1), of 0 0 0]
  obtain D where D: "new_Date 2026 (3 - 1) 3 0 0 0 = Some D" "getFullYear D = 2026"
    "getMonth D = 3 - 1" "getDate D = 3" by auto
  from new_Date_valid[OF v(2), of 0 0 0]
  obtain E where E: "new_Date 2026 (2 - 1) 1 0 0 0 = Some E" "getFullYear E = 2026"
    "getMonth E = 2 - 1" "getDate E = 1" by auto
  have pD: "parseDateFlexible ''31.02.2026'' (Some ''dd.mm.yyyy'') = Some D"
    using parse_dot[OF m(1), of "Some ''dd.mm.yyyy''"] D(1) new_Date_day_overflow(1)
    by (simp add: group0_def)
  have pE: "parseDateFlexible ''2026-01-32'' (Some ''dd.mm.yyyy'') = Some E"
    using parse_iso[OF m(2), of "Some ''dd.mm.yyyy''"] E(1) new_Date_day_overflow(2)
    by (simp add: group0_def)
  have c: "canonical_date ''dd.mm.yyyy'' 2026 3 3 = ''03.03.2026''" by code_simp
  have "formatDateByPattern (Some D) ''dd.mm.yyyy'' = ''03.03.2026''"
    using format_canonical[of "''dd.mm.yyyy''" D] D c by simp
  then show ?thesis using pD pE D E by simp
qed

subsection \<open>C2: day and month of the slash form\<close>

text \<open>
  C2. For a text of the slash shape \<open>a/b/yyyy\<close> (with or without a time),
  \<open>parseDateFlexible\<close> builds the date from the day and month that the rule of the
  specification gives (\<open>spec_day_month\<close>): the component above 12 is the day when there
  is exactly one; otherwise day first for a hint that begins with the day token and for
  no hint, month first for any other hint. When that day and month form a calendar date
  (year from 100 on, valid time), the parsed date has exactly that day, month and year.
\<close>

theorem slash_form_resolution:
  assumes "match_sep CHR ''/'' (trim s) = Some (a, b, yyyy, hh, mi)"
  shows "parseDateFlexible s hint
      = new_Date (int yyyy) (int (snd (spec_day_month a b hint)) - 1)
          (int (fst (spec_day_month a b hint))) (group0 hh) (group0 mi) 0
    \<and> (valid_ymd (int yyyy) (int (snd (spec_day_month a b hint)))
           (int (fst (spec_day_month a b hint)))
         \<and> 100 \<le> yyyy \<and> group0 hh < 24 \<and> group0 mi < 60 \<longrightarrow>
       (\<exists>D. parseDateFlexible s hint = Some D
          \<and> getDate D = int (fst (spec_day_month a b hint))
          \<and> getMonth D + 1 = int (snd (spec_day_month a b hint))
          \<and> getFullYear D = int yyyy))"
proof -
  let ?dd = "int (fst (spec_day_month a b hint))"
  let ?mm = "int (snd (spec_day_month a b hint))"
  have eq: "parseDateFlexible s hint
      = new_Date (int yyyy) (?mm - 1) ?dd (group0 hh) (group0 mi) 0"
    using parse_slash[OF assms, of hint] by (simp add: slash_day_month_spec)
  have "\<exists>D. parseDateFlexible s hint = Some D \<and> getDate D = ?dd \<and> getMonth D + 1 = ?mm
          \<and> getFullYear D = int yyyy"
    if v: "valid_ymd (int yyyy) ?mm ?dd" and y: "100 \<le> yyyy"
      and h: "group0 hh < 24" and m: "group0 mi < 60"
  proof -
    have y': "100 \<le> int yyyy" "int yyyy \<le> 9999"
      using y match_sep_year[OF assms] by simp_all
    have t: "0 \<le> group0 hh" "0 \<le> group0 mi"
      by (simp_all add: group0_def split: option.splits)
    from new_Date_valid[OF v y' t(1) h t(2) m, of 0]
    show ?thesis unfolding eq by auto
  qed
  then show ?thesis using eq by blast
qed

theorem slash_form_resolution_witness:
  "(\<exists>D. parseDateFlexible ''13/02/2026'' (Some ''mm/dd/yyyy'') = Some D
        \<and> getDate D = 13 \<and> getMonth D + 1 = 2 \<and> getFullYear D = 2026)
   \<and> (\<exists>D. parseDateFlexible ''13/02/2026'' None = Some D
        \<and> getDate D = 13 \<and> getMonth D + 1 = 2 \<and> getFullYear D = 2026)
   \<and> (\<exists>D. parseDateFlexible ''02/03/2026'' (Some ''mm/dd/yyyy'') = Some D
        \<and> getDate D = 3 \<and> getMonth D + 1 = 2 \<and> getFullYear D = 2026)
   \<and> (\<exists>D. parseDateFlexible ''02/03/2026'' (Some ''dd/mm/yyyy'') = Some D
        \<and> getDate D = 2 \<and> getMonth D + 1 = 3 \<and> getFullYear D = 2026)
   \<and> (\<exists>D. parseDateFlexible ''02/03/2026'' None = Some D
        \<and> getDate D = 2 \<and> getMonth D + 1 = 3 \<and> getFullYear D = 2026)"
proof -
  have m: "match_sep CHR ''/'' (trim ''13/02/2026'') = Some (13, 2, 2026, None, None)"
    "match_sep CHR ''/'' (trim ''02/03/2026'') = Some (2, 3, 2026, None, None)"
    by code_simp+
  have r: "spec_day_month 13 2 (Some ''mm/dd/yyyy'') = (13, 2)"
    "spec_day_month 13 2 None = (13, 2)"
    "spec_day_month 2 3 (Some ''mm/dd/yyyy'') = (3, 2)"
    "spec_day_month 2 3 (Some ''dd/mm/yyyy'') = (2, 3)"
    "spec_day_month 2 3 None = (2, 3)"
    by code_simp+
  have v: "valid_ymd 2026 2 13" "valid_ymd 2026 2 3" "valid_ymd 2026 3 2"
    by code_simp+
  have g: "group0 None = 0" by (simp add: group0_def)
  have "\<exists>D. parseDateFlexible ''13/02/2026'' (Some ''mm/dd/yyyy'') = Some D
        \<and> getDate D = 13 \<and> getMonth D + 1 = 2 \<and> getFullYear D = 2026"
    using slash_form_resolution[OF m(1), of "Some ''mm/dd/yyyy''", THEN conjunct2] v(1)
    by (simp add: r g)
  moreover have "\<exists>D. parseDateFlexible ''13/02/2026'' None = Some D
        \<and> getDate D = 13 \<and> getMonth D + 1 = 2 \<and> getFullYear D = 2026"
    using slash_form_resolution[OF m(1), of None, THEN conjunct2] v(1)
    by (simp add: r g)
  moreover have "\<exists>D. parseDateFlexible ''02/03/2026'' (Some ''mm/dd/yyyy'') = Some D
        \<and> getDate D = 3 \<and> getMonth D + 1 = 2 \<and> getFullYear D = 2026"
    using slash_form_resolution[OF m(2), of "Some ''mm/dd/yyyy''", THEN conjunct2] v(2)
    by (simp add: r g)
  moreover have "\<exists>D. parseDateFlexible ''02/03/2026'' (Some ''dd/mm/yyyy'') = Some D
        \<and> getDate D = 2 \<and> getMonth D + 1 = 3 \<and> getFullYear D = 2026"
    using slash_form_resolution[OF m(2), of "Some ''dd/mm/yyyy''", THEN conjunct2] v(3)
    by (simp add: r g)
  moreover have "\<exists>D. parseDateFlexible ''02/03/2026'' None = Some D
        \<and> getDate D = 2 \<and> getMonth D + 1 = 3 \<and> getFullYear D = 2026"
    using slash_form_resolution[OF m(2), of None, THEN conjunct2] v(3)
    by (simp add: r g)
  ultimately show ?thesis by blast
qed

subsection \<open>C3: one commit per editing session\<close>

text \<open>
  C3. In an editing session (opened by \<open>startEditing\<close>), the first \<open>commitEdit\<close> on an
  existing column hands exactly one new row collection to the host and emits exactly one
  cell-commit notification, which carries the previous and the new value, whatever they
  are (equal or not). The collection handed over is the previous one with row \<open>r\<close>
  replaced by a copy whose cells are a fresh object, the old cells with the column's key
  set to the coerced value, so the cell then reads that value; no other row and no
  cells object that existed before changes, and a row index past the last row changes
  no row. The commit ends the editing. Every later \<open>commitEdit\<close> of the session, with
  any arguments, changes nothing, so a run of one or more calls ends in the state the
  first call made.
\<close>

theorem commit_once_per_session:
  assumes "startEditing env e st0 = Some st1" "c < length (cols st1)"
  shows "\<exists>st2. commitEdits env ((r, c, v) # calls) st1 = Some st2
    \<and> commitEdit env r c v st1 = Some st2
    \<and> commitEdit env r' c' v' st2 = Some st2
    \<and> onChange_calls st2 = onChange_calls st1 @ [data st2]
    \<and> onCellCommit_calls st2 = onCellCommit_calls st1 @
         [\<lparr>commit_row = r, commit_col = c, columnKey = key (cols st1 ! c),
           prev = cell_at (store st1) (data st1) r (key (cols st1 ! c)),
           next = coerce_value env (dateFormat st1) (cols st1 ! c) v\<rparr>]
    \<and> data st2 = (data st1)[r := (data st1 ! r)\<lparr>cells := length (store st1)\<rparr>]
    \<and> store st2 =
        (if r < length (data st1)
         then store st1 @ [(store st1 ! cells (data st1 ! r))
                 (key (cols st1 ! c) \<mapsto> coerce_value env (dateFormat st1) (cols st1 ! c) v)]
         else store st1)
    \<and> (if r < length (data st1)
        then cell_at (store st2) (data st2) r (key (cols st1 ! c))
               = coerce_value env (dateFormat st1) (cols st1 ! c) v
        else data st2 = data st1)
    \<and> cols st2 = cols st1 \<and> editing st2 = None"
proof -
  from startEditing_frame(1)[OF assms(1)]
  have g: "lastCommittedSession st1 \<noteq> Some (editSessionId st1)" .
  from commitEdit_first[OF g assms(2), of env r v]
  obtain st2 where st2: "commitEdit env r c v st1 = Some st2"
    "lastCommittedSession st2 = Some (editSessionId st2)"
    "onChange_calls st2 = onChange_calls st1 @ [data st2]"
    "onCellCommit_calls st2 = onCellCommit_calls st1 @
         [\<lparr>commit_row = r, commit_col = c, columnKey = key (cols st1 ! c),
           prev = cell_at (store st1) (data st1) r (key (cols st1 ! c)),
           next = coerce_value env (dateFormat st1) (cols st1 ! c) v\<rparr>]"
    by blast
  from commitEdit_first_writes[OF g assms(2), of env r v] st2(1)
  have w: "cols st2 = cols st1"
    "data st2 = (data st1)[r := (data st1 ! r)\<lparr>cells := length (store st1)\<rparr>]"
    "store st2 =
        (if r < length (data st1)
         then store st1 @ [(store st1 ! cells (data st1 ! r))
                 (key (cols st1 ! c) \<mapsto> coerce_value env (dateFormat st1) (cols st1 ! c) v)]
         else store st1)"
    "editing st2 = None"
    by auto
  have rd: "if r < length (data st1)
        then cell_at (store st2) (data st2) r (key (cols st1 ! c))
               = coerce_value env (dateFormat st1) (cols st1 ! c) v
        else data st2 = data st1"
  proof (cases "r < length (data st1)")
    case True
    then show ?thesis unfolding w(2,3) by (simp add: cell_at_fresh)
  next
    case False
    then show ?thesis unfolding w(2) by (simp add: list_update_beyond)
  qed
  have "commitEdits env ((r, c, v) # calls) st1 = Some st2"
    using st2(1) commitEdits_noop[OF st2(2)] by simp
  then show ?thesis using st2 commitEdit_again[OF st2(2)] w rd by blast
qed

text \<open>Two sessions on the grid: one commits 15 over a stored 15 and still notifies, the
  other commits 16 over the stored 15, after which the cell reads 16 and the cells
  object held before still reads 15.\<close>

theorem commit_once_per_session_witness:
  "(\<exists>st1 st2.
     startEditing env0 \<lparr>edit_r = 1, edit_c = 1, mode = Replace, seed = Some ''1''\<rparr> grid_state
       = Some st1
     \<and> commitEdits env0 [(1, 1, ''15''), (1, 1, ''15''), (0, 0, ''zz'')] st1 = Some st2
     \<and> commitEdit env0 1 1 ''15'' st2 = Some st2
     \<and> onChange_calls st2 = [data st2]
     \<and> onCellCommit_calls st2 =
         [\<lparr>commit_row = 1, commit_col = 1, columnKey = ''value'',
           prev = Num 15, next = Num 15\<rparr>]
     \<and> cell_at (store st2) (data st2) 1 ''value'' = Num 15)
   \<and> (\<exists>st1 st2.
     startEditing env0 \<lparr>edit_r = 1, edit_c = 1, mode = Replace, seed = Some ''1''\<rparr> grid_state
       = Some st1
     \<and> commitEdits env0 [(1, 1, ''16''), (1, 1, ''17''), (0, 0, ''zz'')] st1 = Some st2
     \<and> commitEdit env0 1 1 ''17'' st2 = Some st2
     \<and> onChange_calls st2 = [data st2]
     \<and> onCellCommit_calls st2 =
         [\<lparr>commit_row = 1, commit_col = 1, columnKey = ''value'',
           prev = Num 15, next = Num 16\<rparr>]
     \<and> cell_at (store st2) (data st2) 1 ''value'' = Num 16
     \<and> map row_id (data st2) = [''a'', ''b'', ''c'']
     \<and> length (store st2) = 4 \<and> store st2 ! 1 = [''value'' \<mapsto> Num 15])"
proof -
  let ?e = "\<lparr>edit_r = 1, edit_c = 1, mode = Replace, seed = Some ''1''\<rparr>"
  have "edit_c ?e < length (cols grid_state)" by (simp add: grid_state_def cols3_def)
  then obtain st1 where st1: "startEditing env0 ?e grid_state = Some st1"
    using startEditing_some by blast
  note fr = startEditing_frame[OF st1]
  have c: "1 < length (cols st1)" by (simp add: fr grid_state_def cols3_def)
  have k: "key (cols st1 ! 1) = ''value''" by (simp add: fr grid_state_def cols3_def)
  have pv: "cell_at (store st1) (data st1) 1 ''value'' = Num 15"
    by (simp add: fr grid_state_def cell_at_def demo_state_def demo_rows_def)
  have nx: "coerce_value env0 (dateFormat st1) (cols st1 ! 1) ''15'' = Num 15"
    "coerce_value env0 (dateFormat st1) (cols st1 ! 1) ''16'' = Num 16"
    by (simp_all add: fr grid_state_def cols3_def coerce_value_def isNumericColumn_def env0_def
        Number_digits_def digit_val_def)
  have lg: "onChange_calls st1 = []" "onCellCommit_calls st1 = []"
    by (simp_all add: fr grid_state_def demo_state_def)
  have dt: "data st1 = demo_rows" "store st1 = [Map.empty, [''value'' \<mapsto> Num 15], Map.empty]"
    by (simp_all add: fr grid_state_def demo_state_def)
  have ln: "(1::nat) < length (data st1)" by (simp add: dt demo_rows_def)
  from commit_once_per_session[OF st1 c,
      of 1 "''15''" "[(1, 1, ''15''), (0, 0, ''zz'')]" 1 1 "''15''"]
  have A: "\<exists>st2.
     commitEdits env0 [(1, 1, ''15''), (1, 1, ''15''), (0, 0, ''zz'')] st1 = Some st2
     \<and> commitEdit env0 1 1 ''15'' st2 = Some st2
     \<and> onChange_calls st2 = [data st2]
     \<and> onCellCommit_calls st2 =
         [\<lparr>commit_row = 1, commit_col = 1, columnKey = ''value'',
           prev = Num 15, next = Num 15\<rparr>]
     \<and> cell_at (store st2) (data st2) 1 ''value'' = Num 15"
    unfolding k pv nx lg using ln by auto
  from commit_once_per_session[OF st1 c,
      of 1 "''16''" "[(1, 1, ''17''), (0, 0, ''zz'')]" 1 1 "''17''"]
  obtain st2 where B: "commitEdits env0 [(1, 1, ''16''), (1, 1, ''17''), (0, 0, ''zz'')] st1 = Some st2"
     "commitEdit env0 1 1 ''17'' st2 = Some st2"
     "onChange_calls st2 = [data st2]"
     "onCellCommit_calls st2 =
         [\<lparr>commit_row = 1, commit_col = 1, columnKey = ''value'',
           prev = Num 15, next = Num 16\<rparr>]"
     "cell_at (store st2) (data st2) 1 ''value'' = Num 16"
     "data st2 = (data st1)[1 := (data st1 ! 1)\<lparr>cells := length (store st1)\<rparr>]"
     "store st2 = store st1 @ [(store st1 ! cells (data st1 ! 1))(''value'' \<mapsto> Num 16)]"
    unfolding k pv nx lg using ln by auto
  have B2: "map row_id (data st2) = [''a'', ''b'', ''c'']"
    "length (store st2) = 4" "store st2 ! 1 = [''value'' \<mapsto> Num 15]"
    unfolding B(6,7) dt by (simp_all add: demo_rows_def)
  from A obtain s2 where A2:
     "commitEdits env0 [(1, 1, ''15''), (1, 1, ''15''), (0, 0, ''zz'')] st1 = Some s2"
     "commitEdit env0 1 1 ''15'' s2 = Some s2"
     "onChange_calls s2 = [data s2]"
     "onCellCommit_calls s2 =
         [\<lparr>commit_row = 1, commit_col = 1, columnKey = ''value'',
           prev = Num 15, next = Num 15\<rparr>]"
     "cell_at (store s2) (data s2) 1 ''value'' = Num 15"
    by blast
  show ?thesis
  proof (rule conjI)
    show "\<exists>st1 st2.
     startEditing env0 ?e grid_state = Some st1
     \<and> commitEdits env0 [(1, 1, ''15''), (1, 1, ''15''), (0, 0, ''zz'')] st1 = Some st2
     \<and> commitEdit env0 1 1 ''15'' st2 = Some st2
     \<and> onChange_calls st2 = [data st2]
     \<and> onCellCommit_calls st2 =
         [\<lparr>commit_row = 1, commit_col = 1, columnKey = ''value'',
           prev = Num 15, next = Num 15\<rparr>]
     \<and> cell_at (store st2) (data st2) 1 ''value'' = Num 15"
      by (intro exI[of _ st1] exI[of _ s2] conjI) (fact st1 A2)+
  next
    show "\<exists>st1 st2.
     startEditing env0 ?e grid_state = Some st1
     \<and> commitEdits env0 [(1, 1, ''16''), (1, 1, ''17''), (0, 0, ''zz'')] st1 = Some st2
     \<and> commitEdit env0 1 1 ''17'' st2 = Some st2
     \<and> onChange_calls st2 = [data st2]
     \<and> onCellCommit_calls st2 =
         [\<lparr>commit_row = 1, commit_col = 1, columnKey = ''value'',
           prev = Num 15, next = Num 16\<rparr>]
     \<and> cell_at (store st2) (data st2) 1 ''value'' = Num 16
     \<and> map row_id (data st2) = [''a'', ''b'', ''c'']
     \<and> length (store st2) = 4 \<and> store st2 ! 1 = [''value'' \<mapsto> Num 15]"
      by (intro exI[of _ st1] exI[of _ st2] conjI) (fact st1 B(1-5) B2)+
  qed
qed

subsection \<open>C4: the selection invariant under column reorder\<close>

text \<open>
  C4 at a concrete table. The first two of three columns are selected (rows and columns
  in order and inside the table). Dragging the first column onto the third gives the
  column order value, start, title, and the remap sends the selection edges 0 and 1 to
  2 and 0: the selection has its column start after its column end.
\<close>

theorem reorder_inverts_selection:
  "sel_ok grid_state
   \<and> map_option (\<lambda>st. (map key (cols st), sel st)) (onDrop 0 2 grid_state)
       = Some ([''value'', ''start'', ''title''], \<lparr>r1 = 0, r2 = 0, c1 = 2, c2 = 0\<rparr>)
   \<and> map_option sel_ok (onDrop 0 2 grid_state) = Some False"
  by (simp add: grid_state_def demo_state_def demo_rows_def cols3_def sel_ok_def onDrop_def
      hasSel_def splice_move_def Let_def)

subsection \<open>C5: the indent invariant under Alt+Left and Alt+Right\<close>

text \<open>
  C5 at a concrete table. The rows have the indents 0, 1, 2, which satisfy the invariant,
  and the middle row is selected. Alt+Left lowers the middle row to 0 and leaves the last
  row at 2, two levels deeper than the row before it: the invariant is broken at the last
  row. \<open>indentRow\<close> bounds the adjusted row by the indent of the row before it plus one,
  which is the bound of the invariant (lemma \<open>indentRow_clamps_adjusted_row\<close>), but it
  never looks at the row after the adjusted one. With the last row selected, a following
  Alt+Right even lowers that row from 2 to 1.
\<close>

theorem indent_decrease_orphans_next_row:
  "map indent (data demo_state) = [0, 1, 2]
   \<and> indent_ok (data demo_state) 0 \<and> indent_ok (data demo_state) 1
   \<and> indent_ok (data demo_state) 2
   \<and> map indent (data (onKey_AltArrow False demo_state)) = [0, 0, 2]
   \<and> \<not> indent_ok (data (onKey_AltArrow False demo_state)) 2
   \<and> map indent (data (onKey_AltArrow True
         ((onKey_AltArrow False demo_state)\<lparr>sel := \<lparr>r1 = 2, r2 = 2, c1 = 0, c2 = 0\<rparr>\<rparr>)))
       = [0, 0, 1]"
  by (simp add: demo_state_def demo_rows_def indent_ok_def onKey_AltArrow_def hasSel_def
      indentRow_def clamp_def setAndPropagate_def mapi_def enumerate_eq_zip Let_def)

subsection \<open>C6: what a paste does to the collection held before\<close>

text \<open>
  C6 at a concrete table. Before the paste the first row has no title. After pasting the
  text x over the selection, the collection handed to the host has the same row objects
  as before, and the row collection held before the paste, read again, shows x as the
  title of its first row: the paste wrote into the cells object of the old row.
\<close>

theorem paste_writes_into_previous_collection:
  "cell_at (store grid_state) (data grid_state) 0 ''title'' = Undefined
   \<and> data (onPaste env0 ''x'' grid_state) = data grid_state
   \<and> onChange_calls (onPaste env0 ''x'' grid_state) = [data grid_state]
   \<and> cell_at (store (onPaste env0 ''x'' grid_state)) (data grid_state) 0 ''title'' = Str ''x''"
proof -
  have "cell_at (store grid_state) (data grid_state) 0 ''title'' = (Undefined :: int CellValue)"
    by code_simp
  moreover have "data (onPaste env0 ''x'' grid_state) = data grid_state"
    by code_simp
  moreover have "onChange_calls (onPaste env0 ''x'' grid_state) = [data grid_state]"
    by code_simp
  moreover have
    "cell_at (store (onPaste env0 ''x'' grid_state)) (data grid_state) 0 ''title'' = Str ''x''"
    by code_simp
  ultimately show ?thesis by simp
qed

subsection \<open>C7: the visible-row projection\<close>

text \<open>
  C7. A row is in the visible-row projection exactly when none of its ancestors on the
  indent stack is collapsed. With distinct row ids, collapsing a row \<open>p\<close> that is not
  collapsed removes from the projection exactly the rows of its contiguous descendant
  run (the rows after \<open>p\<close> that are deeper than \<open>p\<close>, up to the next row that is not),
  and toggling \<open>p\<close> again gives back the projection there was before.
\<close>

theorem visible_projection:
  assumes "distinct (map row_id rows)" "p < length rows" "row_id (rows ! p) \<notin> C"
  shows "(\<forall>i. i \<in> set (visible_rows rows C) \<longleftrightarrow>
            i < length rows \<and> (\<forall>k. ancestor rows k i \<longrightarrow> row_id (rows ! k) \<notin> C))
    \<and> visible_rows rows (toggleCollapsed (row_id (rows ! p)) C)
        = filter (\<lambda>i. \<not> ancestor rows p i) (visible_rows rows C)
    \<and> visible_rows rows
          (toggleCollapsed (row_id (rows ! p)) (toggleCollapsed (row_id (rows ! p)) C))
        = visible_rows rows C"
proof -
  have "i \<in> set (visible_rows rows C) \<longleftrightarrow>
      i < length rows \<and> (\<forall>k. ancestor rows k i \<longrightarrow> row_id (rows ! k) \<notin> C)" for i
    by (auto simp: visible_rows_eq set_ancestors)
  moreover have "toggleCollapsed (row_id (rows ! p)) C = insert (row_id (rows ! p)) C"
    using assms(3) by (simp add: toggleCollapsed_def)
  moreover have "toggleCollapsed (row_id (rows ! p)) (insert (row_id (rows ! p)) C) = C"
    using assms(3) by (simp add: toggleCollapsed_def)
  ultimately show ?thesis
    using visible_rows_collapse[OF assms(1,2), of C] by simp
qed

lemma rows6_vis: "visible_rows rows6 {} = [0, 1, 2, 3, 4, 5]"
  by code_simp

theorem visible_projection_witness:
  "distinct (map row_id rows6) \<and> (1::nat) < length rows6 \<and> row_id (rows6 ! 1) \<notin> {}
   \<and> visible_rows rows6 {} = [0, 1, 2, 3, 4, 5]
   \<and> visible_rows rows6 (toggleCollapsed ''b'' {}) = [0, 1, 3, 4, 5]
   \<and> visible_rows rows6 (toggleCollapsed ''b'' (toggleCollapsed ''b'' {})) = [0, 1, 2, 3, 4, 5]"
proof -
  have d: "distinct (map row_id rows6)" and l: "1 < length rows6"
    and b: "row_id (rows6 ! 1) = ''b''"
    by (simp_all add: rows6_def)
  have f: "filter (\<lambda>i. \<not> ancestor rows6 1 i) [0, 1, 2, 3, 4, 5] = [0, 1, 3, 4, 5]"
    by (simp add: ancestor_def rows6_def upt_rec)
  show ?thesis
    using visible_projection[OF d l, of "{}"] d l
    unfolding b rows6_vis f by simp
qed

subsection \<open>C8: where a paste puts the clipboard block\<close>

text \<open>
  C8. Let the selection's first row be the visible row at position \<open>p\<close> of the
  projection, and let rows hold distinct cells objects and columns distinct keys. A paste
  of a non-empty text keeps the columns and the rows (none is added), hands the
  collection to the host once, and writes clipboard cell \<open>(i, j)\<close>, coerced as by a
  commit, into the visible row at position \<open>p + i\<close>, column \<open>c1 + j\<close>, for every
  clipboard row that still has a visible row and every cell that still has a column;
  every other cell of every row, hidden rows included, keeps its value. A paste of the
  empty text changes nothing.
\<close>

theorem paste_into_visible_rows:
  assumes hs: "hasSel (sel st)" and ne: "txt \<noteq> []"
    and wf: "\<forall>row \<in> set (data st). cells row < length (store st)"
    and dr: "distinct (map cells (data st))"
    and dk: "distinct (map key (cols st))"
    and p: "p < length (visible_rows (data st) (collapsed st))"
      "int (visible_rows (data st) (collapsed st) ! p) = r1 (sel st)"
  shows "onPaste env [] st = st
    \<and> cols (onPaste env txt st) = cols st
    \<and> data (onPaste env txt st) = data st
    \<and> length (store (onPaste env txt st)) = length (store st)
    \<and> onChange_calls (onPaste env txt st) = onChange_calls st @ [data st]
    \<and> (\<forall>i j. i < length (parseClipboard env txt)
            \<and> p + i < length (visible_rows (data st) (collapsed st))
            \<and> j < length (parseClipboard env txt ! i)
            \<and> nat (c1 (sel st)) + j < length (cols st) \<longrightarrow>
          cell_at (store (onPaste env txt st)) (data st)
              (visible_rows (data st) (collapsed st) ! (p + i))
              (key (cols st ! (nat (c1 (sel st)) + j)))
            = coerce_value env (dateFormat st) (cols st ! (nat (c1 (sel st)) + j))
                (parseClipboard env txt ! i ! j))
    \<and> (\<forall>r k. \<not> (\<exists>i j. i < length (parseClipboard env txt)
            \<and> p + i < length (visible_rows (data st) (collapsed st))
            \<and> visible_rows (data st) (collapsed st) ! (p + i) = r
            \<and> j < length (parseClipboard env txt ! i)
            \<and> nat (c1 (sel st)) + j < length (cols st)
            \<and> key (cols st ! (nat (c1 (sel st)) + j)) = k) \<longrightarrow>
          cell_at (store (onPaste env txt st)) (data st) r k
            = cell_at (store st) (data st) r k)"
proof -
  let ?vis = "visible_rows (data st) (collapsed st)"
  let ?m = "parseClipboard env txt"
  let ?n = "nat (c1 (sel st))"
  let ?h = "paste_lines env (dateFormat st) (cols st) (int ?n) (data st) ?vis p 0 ?m (store st)"
  have c1: "c1 (sel st) = int ?n" using hs by (simp add: hasSel_def)
  have "indexOf (map int ?vis) (map int ?vis ! p) = int p"
    using p(1) visible_rows_sorted(2)[of "data st" "collapsed st"]
    by (intro indexOf_nth) (simp_all add: distinct_map)
  then have idx: "indexOf (map int ?vis) (r1 (sel st)) = int p" using p by simp
  have paste: "onPaste env txt st = setAndPropagate (data st) (st\<lparr>store := ?h\<rparr>)"
    using hs ne idx c1 by (simp add: onPaste_def Let_def)
  have wfv: "\<forall>v \<in> set ?vis. cells (data st ! v) < length (store st)"
    using wf visible_rows_bound by fastforce
  have dv: "distinct (map (\<lambda>v. cells (data st ! v)) ?vis)"
    by (rule visible_cells_distinct[OF dr])
  have written: "cell_at ?h (data st) (?vis ! (p + i)) (key (cols st ! (?n + j)))
      = coerce_value env (dateFormat st) (cols st ! (?n + j)) (?m ! i ! j)"
    if "i < length ?m" "p + i < length ?vis" "j < length (?m ! i)" "?n + j < length (cols st)"
    for i j
  proof -
    have "?vis ! (p + i) \<in> set ?vis" using that(2) by simp
    then have "?vis ! (p + i) < length (data st)" by (rule visible_rows_bound)
    moreover have "(?h ! cells (data st ! (?vis ! (p + 0 + i)))) (key (cols st ! (?n + j)))
        = Some (coerce_value env (dateFormat st) (cols st ! (?n + j)) (?m ! i ! j))"
      using that by (intro paste_lines_written[OF dk dv wfv]) simp_all
    ultimately show ?thesis by (simp add: cell_at_def)
  qed
  have untouched: "cell_at ?h (data st) r k = cell_at (store st) (data st) r k"
    if no: "\<not> (\<exists>i j. i < length ?m \<and> p + i < length ?vis \<and> ?vis ! (p + i) = r
            \<and> j < length (?m ! i) \<and> ?n + j < length (cols st)
            \<and> key (cols st ! (?n + j)) = k)"
    for r k
  proof (cases "r < length (data st)")
    case False
    then show ?thesis by (simp add: cell_at_def)
  next
    case True
    have "\<forall>i' < length ?m. p + 0 + i' < length ?vis \<longrightarrow>
             cells (data st ! (?vis ! (p + 0 + i'))) = cells (data st ! r) \<longrightarrow>
             (\<forall>j' < length (?m ! i'). ?n + j' < length (cols st) \<longrightarrow>
                key (cols st ! (?n + j')) \<noteq> k)"
    proof (intro allI impI)
      fix i' j'
      assume a: "i' < length ?m" "p + 0 + i' < length ?vis"
        "cells (data st ! (?vis ! (p + 0 + i'))) = cells (data st ! r)"
        "j' < length (?m ! i')" "?n + j' < length (cols st)"
      then have "?vis ! (p + i') \<in> set ?vis" by simp
      then have "?vis ! (p + i') < length (data st)" by (rule visible_rows_bound)
      then have "?vis ! (p + i') = r"
        using a(3) True dr nth_eq_iff_index_eq[of "map cells (data st)" "?vis ! (p + i')" r]
        by simp
      then show "key (cols st ! (?n + j')) \<noteq> k" using no a by auto
    qed
    from paste_lines_untouched[OF this, of env "dateFormat st" "store st"]
    show ?thesis using True by (simp add: cell_at_def)
  qed
  have "onPaste env [] st = st" by (simp add: onPaste_def Let_def)
  moreover have "cols (onPaste env txt st) = cols st" "data (onPaste env txt st) = data st"
    "length (store (onPaste env txt st)) = length (store st)"
    "onChange_calls (onPaste env txt st) = onChange_calls st @ [data st]"
    "store (onPaste env txt st) = ?h"
    by (simp_all add: paste setAndPropagate_def)
  ultimately show ?thesis using written untouched by simp
qed

theorem paste_into_visible_rows_witness:
  "hasSel (sel paste_state)
   \<and> visible_rows (data paste_state) (collapsed paste_state) = [0, 1, 3, 4, 5]
   \<and> r1 (sel paste_state) = 1
   \<and> data (onPaste clip_env ''t'' paste_state) = data paste_state
   \<and> cols (onPaste clip_env ''t'' paste_state) = cols paste_state
   \<and> cell_at (store (onPaste clip_env ''t'' paste_state)) (data paste_state) 1 ''value'' = Num 5
   \<and> cell_at (store (onPaste clip_env ''t'' paste_state)) (data paste_state) 1 ''start''
       = Str ''12.03.2026''
   \<and> cell_at (store (onPaste clip_env ''t'' paste_state)) (data paste_state) 3 ''value'' = Num 6
   \<and> cell_at (store (onPaste clip_env ''t'' paste_state)) (data paste_state) 4 ''value'' = Num 7
   \<and> cell_at (store (onPaste clip_env ''t'' paste_state)) (data paste_state) 2 ''value''
       = Undefined"
proof -
  have v: "visible_rows (data paste_state) (collapsed paste_state) = [0, 1, 3, 4, 5]"
    by code_simp
  have hs: "hasSel (sel paste_state)" and r: "r1 (sel paste_state) = 1"
    and c: "nat (c1 (sel paste_state)) = 1"
    by (simp_all add: paste_state_def hasSel_def)
  have wf: "\<forall>row \<in> set (data paste_state). cells row < length (store paste_state)"
    and dr: "distinct (map cells (data paste_state))"
    and dk: "distinct (map key (cols paste_state))"
    and cl: "cols paste_state = cols3" and fm: "dateFormat paste_state = ''dd.mm.yyyy''"
    by (simp_all add: paste_state_def hidden_c_state_def rows6_def cols3_def)
  have m: "parseClipboard clip_env ''t'' = [[''5'', ''12.3.2026'', ''zz''], [''6'', ''y''], [''7'']]"
    by (simp add: clip_env_def)
  have p: "1 < length (visible_rows (data paste_state) (collapsed paste_state))"
    "int (visible_rows (data paste_state) (collapsed paste_state) ! 1) = r1 (sel paste_state)"
    unfolding v r by simp_all
  have ne: "''t'' \<noteq> []" by simp
  note T0 = paste_into_visible_rows[OF hs ne wf dr dk p, of clip_env]
  note T = T0[unfolded v c m cl fm]
  have fr: "cols (onPaste clip_env ''t'' paste_state) = cols paste_state"
    "data (onPaste clip_env ''t'' paste_state) = data paste_state"
    using T0 by blast+
  have co: "coerce_value clip_env ''dd.mm.yyyy'' (cols3 ! Suc 0) ''5'' = Num 5"
    "coerce_value clip_env ''dd.mm.yyyy'' (cols3 ! Suc 0) ''6'' = Num 6"
    "coerce_value clip_env ''dd.mm.yyyy'' (cols3 ! Suc 0) ''7'' = Num 7"
    "coerce_value clip_env ''dd.mm.yyyy'' (cols3 ! Suc (Suc 0)) ''12.3.2026'' = Str ''12.03.2026''"
    by code_simp+
  have k: "key (cols3 ! Suc 0) = ''value''" "key (cols3 ! Suc (Suc 0)) = ''start''"
    "length cols3 = 3"
    by (simp_all add: cols3_def)
  have w: "cell_at (store (onPaste clip_env ''t'' paste_state)) (data paste_state) 1 ''value'' = Num 5"
    "cell_at (store (onPaste clip_env ''t'' paste_state)) (data paste_state) 1 ''start'' = Str ''12.03.2026''"
    "cell_at (store (onPaste clip_env ''t'' paste_state)) (data paste_state) 3 ''value'' = Num 6"
    "cell_at (store (onPaste clip_env ''t'' paste_state)) (data paste_state) 4 ''value'' = Num 7"
    using T[THEN conjunct2, THEN conjunct2, THEN conjunct2, THEN conjunct2, THEN conjunct2,
        THEN conjunct1, rule_format, of 0 0]
      T[THEN conjunct2, THEN conjunct2, THEN conjunct2, THEN conjunct2, THEN conjunct2,
        THEN conjunct1, rule_format, of 0 1]
      T[THEN conjunct2, THEN conjunct2, THEN conjunct2, THEN conjunct2, THEN conjunct2,
        THEN conjunct1, rule_format, of 1 0]
      T[THEN conjunct2, THEN conjunct2, THEN conjunct2, THEN conjunct2, THEN conjunct2,
        THEN conjunct1, rule_format, of 2 0]
    by (simp_all add: co k)
  have no: "\<not> (\<exists>i j. i < length [[''5'', ''12.3.2026'', ''zz''], [''6'', ''y''], [''7'']]
      \<and> 1 + i < length [0, 1, 3, 4, 5::nat] \<and> [0, 1, 3, 4, 5::nat] ! (1 + i) = 2
      \<and> j < length ([[''5'', ''12.3.2026'', ''zz''], [''6'', ''y''], [''7'']] ! i)
      \<and> 1 + j < length cols3 \<and> key (cols3 ! (1 + j)) = ''value'')"
    by (auto simp: less_Suc_eq numeral_3_eq_3)
  have u: "cell_at (store (onPaste clip_env ''t'' paste_state)) (data paste_state) 2 ''value''
      = cell_at (store paste_state) (data paste_state) 2 ''value''"
    using T[THEN conjunct2, THEN conjunct2, THEN conjunct2, THEN conjunct2, THEN conjunct2,
        THEN conjunct2, rule_format, OF no] .
  have u0: "cell_at (store paste_state) (data paste_state) 2 ''value'' = (Undefined :: int CellValue)"
    by code_simp
  show ?thesis using v hs r fr w u u0 by simp
qed

subsection \<open>C9: formatting what was parsed\<close>




subsection \<open>C10: navigation from an anchor row that is hidden\<close>

text \<open>
  C10. When the anchor row is not in the visible-row projection, the navigation step
  keeps the column, whatever the direction, and moves to the nearest visible row at or
  after the anchor; when there is none, to the last visible row; and it stays on the
  anchor when no row is visible at all.
\<close>

theorem nextPosAfter_absent_anchor:
  assumes "r \<notin> set (visible_rows (data st) (collapsed st))"
  shows "snd (nextPosAfter r c dir st) = c
    \<and> (if \<exists>v \<in> set (visible_rows (data st) (collapsed st)). r \<le> v
       then fst (nextPosAfter r c dir st) \<in> set (visible_rows (data st) (collapsed st))
          \<and> r \<le> fst (nextPosAfter r c dir st)
          \<and> (\<forall>v \<in> set (visible_rows (data st) (collapsed st)).
                r \<le> v \<longrightarrow> fst (nextPosAfter r c dir st) \<le> v)
       else if visible_rows (data st) (collapsed st) \<noteq> []
       then fst (nextPosAfter r c dir st) = last (visible_rows (data st) (collapsed st))
       else fst (nextPosAfter r c dir st) = r)"
proof -
  let ?vis = "visible_rows (data st) (collapsed st)"
  have idx: "indexOf ?vis r = - 1" using assms by (simp add: indexOf_absent)
  have np: "nextPosAfter r c dir st =
      (case find (\<lambda>v. r \<le> v) ?vis of Some v \<Rightarrow> v
       | None \<Rightarrow> if ?vis = [] then r else last ?vis, c)"
    by (simp add: nextPosAfter_def Let_def idx split: option.splits)
  show ?thesis
  proof (cases "find (\<lambda>v. r \<le> v) ?vis")
    case None
    then have "\<not> (\<exists>v \<in> set ?vis. r \<le> v)" by (simp add: find_None_iff)
    then show ?thesis using None by (simp add: np)
  next
    case (Some w)
    from find_sorted_least[OF visible_rows_sorted(1) Some]
    show ?thesis using Some by (auto simp: np)
  qed
qed


theorem nextPosAfter_absent_anchor_witness:
  "2 \<notin> set (visible_rows (data hidden_c_state) (collapsed hidden_c_state))
   \<and> nextPosAfter 2 7 Left hidden_c_state = (3, 7)
   \<and> nextPosAfter 2 7 Right hidden_c_state = (3, 7)
   \<and> nextPosAfter 2 7 Up hidden_c_state = (3, 7)
   \<and> nextPosAfter 2 7 Down hidden_c_state = (3, 7)"
proof -
  have v: "visible_rows (data hidden_c_state) (collapsed hidden_c_state) = [0, 1, 3, 4, 5]"
    by code_simp
  have a: "2 \<notin> set (visible_rows (data hidden_c_state) (collapsed hidden_c_state))"
    unfolding v by simp
  have "snd (nextPosAfter 2 7 dir hidden_c_state) = 7
      \<and> fst (nextPosAfter 2 7 dir hidden_c_state) = 3" for dir
    using nextPosAfter_absent_anchor[OF a, of 7 dir] unfolding v by auto
  then have "nextPosAfter 2 7 dir hidden_c_state = (3, 7)" for dir
    by (simp add: prod_eq_iff)
  then show ?thesis using a by simp
qed

end
